theory Spec2Isabelle
  imports Main "HOL-Library.Word"
begin

section \<open>SecureWipe: overwrite-and-delete of files and directory trees\<close>

text \<open>
  A shallow embedding of \<^verbatim>\<open>src/secure_wipe.cpp\<close>. The two entry points
  \<^verbatim>\<open>wipe_file\<close> and \<^verbatim>\<open>wipe_directory\<close> and their helpers
  (\<^verbatim>\<open>errstr\<close>, \<^verbatim>\<open>flush_to_disk\<close>, \<^verbatim>\<open>is_dangerous_dir\<close>) are translated
  statement by statement. Everything they call in the C++ standard library
  (\<^verbatim>\<open>std::filesystem\<close>, \<^verbatim>\<open>std::ofstream\<close>, \<^verbatim>\<open>getenv\<close>, the random engine,
  the standard streams) is the environment; it is modelled by the record
  \<open>world\<close> and the operations of the next subsection.
\<close>

subsection \<open>The environment\<close>

type_synonym path = string
type_synonym byte = "8 word"

text \<open>An \<^verbatim>\<open>std::error_code\<close>: \<open>None\<close> is the cleared code, \<open>Some e\<close> carries the errno value.\<close>
type_synonym error_code = "nat option"

text \<open>What a path names, as \<^verbatim>\<open>lstat\<close> sees it.\<close>
datatype node = Regular "byte list" | Directory | Symlink path | Special

datatype file_type = ft_none | ft_not_found | ft_regular | ft_directory | ft_symlink | ft_unknown

text \<open>The names below a directory, nested, in the order \<^verbatim>\<open>readdir\<close> reports them.\<close>
datatype dtree = Entry path "dtree list"

text \<open>
  What the operating system will answer, fixed during a run.
  \<^item> \<open>tree\<close>: the directory skeleton (which names lie below which directory);
    \<open>unreadable\<close>: directories that cannot be opened for listing (EACCES).
  \<^item> \<open>stat_err\<close>: paths whose status cannot be queried, with the errno; \<open>size_err\<close>: paths
    whose size cannot be queried although their status can.
  \<^item> \<open>canonical\<close>: the outcome of \<^verbatim>\<open>weakly_canonical\<close> for each path, an errno or the
    canonical path; \<open>cwd\<close>: the outcome of \<^verbatim>\<open>current_path\<close>; \<open>env_HOME\<close>: the
    environment variable.
  \<^item> \<open>io_fault\<close>: a schedule of operating system failures for the operations that open,
    write, flush and remove. The n-th such operation of the run fails with errno \<open>e\<close>
    when \<open>io_fault n = Some e\<close>.
  \<^item> \<open>strerror\<close>: the message table of the C library; \<open>random_bytes\<close>: the values the
    random engine delivers.
\<close>
record environment =
  tree :: "path \<Rightarrow> dtree list"
  unreadable :: "path \<Rightarrow> bool"
  stat_err :: "path \<Rightarrow> error_code"
  size_err :: "path \<Rightarrow> error_code"
  canonical :: "path \<Rightarrow> nat + path"
  cwd :: "nat + path"
  env_HOME :: "string option"
  io_fault :: "nat \<Rightarrow> error_code"
  strerror :: "nat \<Rightarrow> string"
  random_bytes :: "nat \<Rightarrow> byte"

text \<open>
  The state of the machine.
  \<^item> \<open>nodes\<close>: the file system objects by path.
  \<^item> \<open>io_count\<close>: how many entries of the failure schedule have been used;
    \<open>random_pos\<close>: how many random values have been drawn; \<open>errno\<close>: the C error number.
  \<^item> \<open>sink\<close>: every block a successful \<^verbatim>\<open>write\<close> has put into a file, with the file
    and the offset (an instrumented sink of the writes); \<open>cout\<close>, \<open>cerr\<close>: the lines
    printed.
\<close>
record world =
  env :: environment
  nodes :: "path \<Rightarrow> node option"
  io_count :: nat
  errno :: nat
  random_pos :: nat
  sink :: "(path \<times> nat \<times> byte list) list"
  cout :: "string list"
  cerr :: "string list"

definition ec_message :: "world \<Rightarrow> error_code \<Rightarrow> string" where
  "ec_message w ec = (case ec of None \<Rightarrow> ''Success'' | Some e \<Rightarrow> strerror (env w) e)"

text \<open>The error numbers the model itself produces (their Linux values).\<close>
definition ELOOP :: nat where "ELOOP = 40"
definition ENOENT :: nat where "ENOENT = 2"
definition EISDIR :: nat where "EISDIR = 21"
definition EINVAL :: nat where "EINVAL = 22"
definition ENOTEMPTY :: nat where "ENOTEMPTY = 39"
definition ENOTSUP :: nat where "ENOTSUP = 95"

fun type_of_node :: "node \<Rightarrow> file_type" where
  "type_of_node (Regular _) = ft_regular"
| "type_of_node Directory = ft_directory"
| "type_of_node (Symlink _) = ft_symlink"
| "type_of_node Special = ft_unknown"

text \<open>\<^verbatim>\<open>symlink_status\<close>: the type of the object the path names, links not followed.\<close>
definition fs_symlink_status :: "world \<Rightarrow> path \<Rightarrow> file_type \<times> error_code" where
  "fs_symlink_status w p =
     (case stat_err (env w) p of
        Some e \<Rightarrow> (ft_none, Some e)
      | None \<Rightarrow> (case nodes w p of
                   None \<Rightarrow> (ft_not_found, None)
                 | Some n \<Rightarrow> (type_of_node n, None)))"

text \<open>
  Following symbolic links, at most \<open>k\<close> of them (the kernel stops with ELOOP). The
  result is the path of the object reached, if there is one.
\<close>
fun follow :: "nat \<Rightarrow> world \<Rightarrow> path \<Rightarrow> error_code \<times> path option" where
  "follow 0 w p = (Some ELOOP, None)"
| "follow (Suc k) w p =
     (case stat_err (env w) p of
        Some e \<Rightarrow> (Some e, None)
      | None \<Rightarrow> (case nodes w p of
                   None \<Rightarrow> (None, None)
                 | Some (Symlink t) \<Rightarrow> follow k w t
                 | Some _ \<Rightarrow> (None, Some p)))"

definition resolve :: "world \<Rightarrow> path \<Rightarrow> error_code \<times> path option" where
  "resolve w p = follow (Suc 40) w p"

text \<open>\<^verbatim>\<open>status\<close>: the type of the object reached through links.\<close>
definition fs_status :: "world \<Rightarrow> path \<Rightarrow> file_type \<times> error_code" where
  "fs_status w p =
     (case resolve w p of
        (Some e, _) \<Rightarrow> (ft_none, Some e)
      | (None, None) \<Rightarrow> (ft_not_found, None)
      | (None, Some q) \<Rightarrow> (case nodes w q of
                             None \<Rightarrow> (ft_not_found, None)
                           | Some n \<Rightarrow> (type_of_node n, None)))"

definition fs_exists :: "world \<Rightarrow> path \<Rightarrow> bool \<times> error_code" where
  "fs_exists w p =
     (case fs_status w p of (t, ec) \<Rightarrow>
        if t \<noteq> ft_none then (t \<noteq> ft_not_found, None) else (False, ec))"

definition fs_is_regular_file :: "world \<Rightarrow> path \<Rightarrow> bool \<times> error_code" where
  "fs_is_regular_file w p = (case fs_status w p of (t, ec) \<Rightarrow> (t = ft_regular, ec))"

definition fs_is_directory :: "world \<Rightarrow> path \<Rightarrow> bool \<times> error_code" where
  "fs_is_directory w p = (case fs_status w p of (t, ec) \<Rightarrow> (t = ft_directory, ec))"

definition fs_is_symlink :: "world \<Rightarrow> path \<Rightarrow> bool \<times> error_code" where
  "fs_is_symlink w p = (case fs_symlink_status w p of (t, ec) \<Rightarrow> (t = ft_symlink, ec))"

text \<open>
  \<^verbatim>\<open>file_size\<close>: the length of a regular file; an error for everything else. Sizes
  are natural numbers: the source holds them in 64-bit unsigned variables and only
  takes minima and subtracts a chunk from a remainder that is at least as large.
\<close>
definition fs_file_size :: "world \<Rightarrow> path \<Rightarrow> nat \<times> error_code" where
  "fs_file_size w p =
     (case resolve w p of
        (Some e, _) \<Rightarrow> (0, Some e)
      | (None, None) \<Rightarrow> (0, Some ENOENT)
      | (None, Some q) \<Rightarrow>
          (case size_err (env w) q of
             Some e \<Rightarrow> (0, Some e)
           | None \<Rightarrow> (case nodes w q of
                        Some (Regular bs) \<Rightarrow> (length bs, None)
                      | Some Directory \<Rightarrow> (0, Some EISDIR)
                      | Some _ \<Rightarrow> (0, Some ENOTSUP)
                      | None \<Rightarrow> (0, Some ENOENT))))"

text \<open>The next entry of the failure schedule.\<close>
definition next_fault :: "world \<Rightarrow> error_code \<times> world" where
  "next_fault w = (io_fault (env w) (io_count w), w\<lparr>io_count := Suc (io_count w)\<rparr>)"

text \<open>The entries of a directory that exist.\<close>
definition children :: "world \<Rightarrow> path \<Rightarrow> path list" where
  "children w d =
     [q \<leftarrow> map (\<lambda>t. case t of Entry q _ \<Rightarrow> q) (tree (env w) d). nodes w q \<noteq> None]"

text \<open>
  \<^verbatim>\<open>remove\<close>: deletes the object the path names (a link itself, not its target; a
  directory only when it is empty). False with a cleared code when there is nothing
  to delete, false with the errno when the operating system refuses.
\<close>
definition fs_remove :: "path \<Rightarrow> world \<Rightarrow> bool \<times> error_code \<times> world" where
  "fs_remove p w =
     (case next_fault w of (f, w1) \<Rightarrow>
        (case nodes w1 p of
           None \<Rightarrow> (False, None, w1)
         | Some n \<Rightarrow>
             (case f of
                Some e \<Rightarrow> (False, Some e, w1\<lparr>errno := e\<rparr>)
              | None \<Rightarrow>
                  if n = Directory \<and> children w1 p \<noteq> []
                  then (False, Some ENOTEMPTY, w1\<lparr>errno := ENOTEMPTY\<rparr>)
                  else (True, None, w1\<lparr>nodes := (nodes w1)(p := None)\<rparr>))))"

text \<open>An \<^verbatim>\<open>std::ofstream\<close>: the file it writes to, the put position, the fail state.\<close>
record ofstream =
  target :: path
  pos :: nat
  failed :: bool

text \<open>
  Opening with \<^verbatim>\<open>binary | in | out\<close>: the file must exist and be a regular file (links
  are followed); it is neither created nor truncated and the position is 0.
\<close>
definition ofstream_open :: "path \<Rightarrow> world \<Rightarrow> ofstream \<times> world" where
  "ofstream_open p w =
     (case next_fault w of (f, w1) \<Rightarrow>
        (case f of
           Some e \<Rightarrow> (\<lparr>target = p, pos = 0, failed = True\<rparr>, w1\<lparr>errno := e\<rparr>)
         | None \<Rightarrow>
             (case resolve w1 p of
                (Some e, _) \<Rightarrow> (\<lparr>target = p, pos = 0, failed = True\<rparr>, w1\<lparr>errno := e\<rparr>)
              | (None, None) \<Rightarrow>
                  (\<lparr>target = p, pos = 0, failed = True\<rparr>, w1\<lparr>errno := ENOENT\<rparr>)
              | (None, Some q) \<Rightarrow>
                  (case nodes w1 q of
                     Some (Regular _) \<Rightarrow> (\<lparr>target = q, pos = 0, failed = False\<rparr>, w1)
                   | Some Directory \<Rightarrow>
                       (\<lparr>target = p, pos = 0, failed = True\<rparr>, w1\<lparr>errno := EISDIR\<rparr>)
                   | _ \<Rightarrow> (\<lparr>target = p, pos = 0, failed = True\<rparr>, w1\<lparr>errno := ENOENT\<rparr>)))))"

text \<open>The content of a file after a block is written at offset \<open>i\<close>.\<close>
definition overwrite_at :: "nat \<Rightarrow> byte list \<Rightarrow> byte list \<Rightarrow> byte list" where
  "overwrite_at i bs old =
     take i old @ replicate (i - length old) 0 @ bs @ drop (i + length bs) old"

text \<open>
  \<^verbatim>\<open>write\<close>: on a stream that has failed nothing happens. Otherwise the block
  replaces the bytes at the put position, or the operating system fails, the stream
  goes into the fail state and the file keeps its content.
\<close>
definition ofstream_write :: "byte list \<Rightarrow> ofstream \<Rightarrow> world \<Rightarrow> ofstream \<times> world" where
  "ofstream_write bs ofs w =
     (if failed ofs then (ofs, w)
      else case next_fault w of (f, w1) \<Rightarrow>
        (case f of
           Some e \<Rightarrow> (ofs\<lparr>failed := True\<rparr>, w1\<lparr>errno := e\<rparr>)
         | None \<Rightarrow>
             (case nodes w1 (target ofs) of
                Some (Regular old) \<Rightarrow>
                  (ofs\<lparr>pos := pos ofs + length bs\<rparr>,
                   w1\<lparr>nodes := (nodes w1)(target ofs \<mapsto> Regular (overwrite_at (pos ofs) bs old)),
                      sink := sink w1 @ [(target ofs, pos ofs, bs)]\<rparr>)
              | _ \<Rightarrow> (ofs\<lparr>failed := True\<rparr>, w1\<lparr>errno := ENOENT\<rparr>))))"

definition ofstream_flush :: "ofstream \<Rightarrow> world \<Rightarrow> ofstream \<times> world" where
  "ofstream_flush ofs w =
     (if failed ofs then (ofs, w)
      else case next_fault w of (f, w1) \<Rightarrow>
        (case f of
           Some e \<Rightarrow> (ofs\<lparr>failed := True\<rparr>, w1\<lparr>errno := e\<rparr>)
         | None \<Rightarrow> (ofs, w1)))"

text \<open>One draw of \<^verbatim>\<open>dist(rng)\<close>, cast to a byte.\<close>
definition draw :: "world \<Rightarrow> byte \<times> world" where
  "draw w = (random_bytes (env w) (random_pos w), w\<lparr>random_pos := Suc (random_pos w)\<rparr>)"

subsection \<open>The data model of the program\<close>

datatype Pattern = Zeros | Random

text \<open>
  \<open>passes\<close> is a C++ \<^verbatim>\<open>int\<close>, read as a signed 32-bit value; \<open>block_size\<close> is a
  \<^verbatim>\<open>size_t\<close> and gives the length of the buffer, whose allocation is taken to
  succeed.
\<close>
record WipeOptions =
  passes :: "32 word"
  pattern :: Pattern
  block_size :: nat

record WipeResult =
  ok :: bool
  message :: string

subsection \<open>The overwrite engine\<close>

definition errstr :: "string \<Rightarrow> world \<Rightarrow> string" where
  "errstr prefix w = prefix @ '': '' @ strerror (env w) (errno w)"

definition flush_to_disk :: "ofstream \<Rightarrow> world \<Rightarrow> bool \<times> ofstream \<times> world" where
  "flush_to_disk ofs w =
     (case ofstream_flush ofs w of (ofs1, w1) \<Rightarrow>
        if failed ofs1 then (False, ofs1, w1) else (True, ofs1, w1))"

text \<open>\<^verbatim>\<open>std::fill(buf.begin(), buf.begin() + chunk, 0x00)\<close>\<close>
definition fill_zeros :: "nat \<Rightarrow> byte list \<Rightarrow> byte list" where
  "fill_zeros chunk buf = replicate chunk 0 @ drop chunk buf"

text \<open>\<^verbatim>\<open>for (i = 0; i < chunk; ++i) buf[i] = dist(rng)\<close>, from index \<open>i\<close> on.\<close>
function fill_random :: "nat \<Rightarrow> nat \<Rightarrow> byte list \<Rightarrow> world \<Rightarrow> byte list \<times> world" where
  "fill_random i chunk buf w =
     (if i < chunk then
        (case draw w of (b, w1) \<Rightarrow> fill_random (Suc i) chunk (buf[i := b]) w1)
      else (buf, w))"
  by pat_completeness auto
termination
  by (relation "measure (\<lambda>(i, chunk, buf, w). chunk - i)") auto

text \<open>
  The body of the inner loop \<^verbatim>\<open>while (remaining > 0)\<close>: fill the first \<open>chunk\<close> bytes
  of the buffer, write them, subtract. \<open>Inl\<close> is the early return of \<^verbatim>\<open>wipe_file\<close>
  with a failure, \<open>Inr\<close> the values of \<open>remaining\<close>, the buffer, the stream and the
  machine after the body.
\<close>
definition write_chunk ::
  "WipeOptions \<Rightarrow> nat \<Rightarrow> byte list \<Rightarrow> ofstream \<Rightarrow> world
     \<Rightarrow> (WipeResult \<times> world) + (nat \<times> byte list \<times> ofstream \<times> world)" where
  "write_chunk opt remaining buf ofs w =
     (let chunk = min remaining (length buf) in
      case (if pattern opt = Zeros then (fill_zeros chunk buf, w)
            else fill_random 0 chunk buf w) of (buf1, w1) \<Rightarrow>
      case ofstream_write (take chunk buf1) ofs w1 of (ofs2, w2) \<Rightarrow>
        if failed ofs2 then
          Inl (\<lparr>ok = False, message = errstr ''Write failed during overwrite'' w2\<rparr>, w2)
        else Inr (remaining - chunk, buf1, ofs2, w2))"

text \<open>
  The inner loop. It need not end, so the value is an option and \<open>None\<close> stands for
  a run that does not return.
\<close>
partial_function (option) write_chunks ::
  "WipeOptions \<Rightarrow> nat \<Rightarrow> byte list \<Rightarrow> ofstream \<Rightarrow> world
     \<Rightarrow> ((WipeResult \<times> world) + (byte list \<times> ofstream \<times> world)) option" where
  "write_chunks opt remaining buf ofs w =
     (if remaining > 0 then
        (case write_chunk opt remaining buf ofs w of
           Inl r \<Rightarrow> Some (Inl r)
         | Inr (remaining1, buf1, ofs1, w1) \<Rightarrow> write_chunks opt remaining1 buf1 ofs1 w1)
      else Some (Inr (buf, ofs, w)))"

declare write_chunks.simps [code]

text \<open>
  The body of the outer loop: open the file, overwrite it chunk by chunk, flush.
\<close>
definition overwrite_pass ::
  "path \<Rightarrow> WipeOptions \<Rightarrow> nat \<Rightarrow> byte list \<Rightarrow> world
     \<Rightarrow> ((WipeResult \<times> world) + (byte list \<times> world)) option" where
  "overwrite_pass path opt file_size buf w =
     (case ofstream_open path w of (ofs, w1) \<Rightarrow>
        if failed ofs then
          Some (Inl (\<lparr>ok = False,
                      message = errstr ''Failed to open file for overwrite'' w1\<rparr>, w1))
        else
          (case write_chunks opt file_size buf ofs w1 of
             None \<Rightarrow> None
           | Some (Inl r) \<Rightarrow> Some (Inl r)
           | Some (Inr (buf2, ofs2, w2)) \<Rightarrow>
               (case flush_to_disk ofs2 w2 of (flushed, ofs3, w3) \<Rightarrow>
                  if \<not> flushed then Some (Inl (\<lparr>ok = False, message = ''Flush failed''\<rparr>, w3))
                  else Some (Inr (buf2, w3)))))"

text \<open>
  The outer loop \<^verbatim>\<open>for (int pass = 1; pass <= opt.passes; ++pass)\<close>, from the
  given value of \<open>pass\<close> on. The counter is a 32-bit \<^verbatim>\<open>int\<close>; its increment wraps.
\<close>
partial_function (option) pass_loop ::
  "path \<Rightarrow> WipeOptions \<Rightarrow> nat \<Rightarrow> byte list \<Rightarrow> 32 word \<Rightarrow> world
     \<Rightarrow> ((WipeResult \<times> world) + (byte list \<times> world)) option" where
  "pass_loop path opt file_size buf pass w =
     (if sint pass \<le> sint (passes opt) then
        (case overwrite_pass path opt file_size buf w of
           None \<Rightarrow> None
         | Some (Inl r) \<Rightarrow> Some (Inl r)
         | Some (Inr (buf2, w3)) \<Rightarrow> pass_loop path opt file_size buf2 (pass + 1) w3)
      else Some (Inr (buf, w)))"

declare pass_loop.simps [code]

definition wipe_file :: "path \<Rightarrow> WipeOptions \<Rightarrow> world \<Rightarrow> (WipeResult \<times> world) option" where
  "wipe_file path opt w =
     (case fs_exists w path of (ex, ec0) \<Rightarrow>
      if \<not> ex then Some (\<lparr>ok = False, message = ''Path does not exist''\<rparr>, w)
      else case fs_is_regular_file w path of (reg, ec1) \<Rightarrow>
      if \<not> reg then
        Some (\<lparr>ok = False,
               message = ''Path is not a regular file (directories not supported in MVP)''\<rparr>, w)
      else case fs_file_size w path of (file_size, ec) \<Rightarrow>
      if ec \<noteq> None then
        Some (\<lparr>ok = False, message = ''Failed to get file size: '' @ ec_message w ec\<rparr>, w)
      else if sint (passes opt) \<le> 0 then
        Some (\<lparr>ok = False, message = ''passes must be >= 1''\<rparr>, w)
      else
        (case pass_loop path opt file_size (replicate (block_size opt) 0) 1 w of
           None \<Rightarrow> None
         | Some (Inl r) \<Rightarrow> Some r
         | Some (Inr (buf, w1)) \<Rightarrow>
             (case fs_remove path w1 of (removed, ec2, w2) \<Rightarrow>
                if \<not> removed \<or> ec2 \<noteq> None then
                  Some (\<lparr>ok = False,
                         message = ''Failed to delete file: '' @
                           (if ec2 \<noteq> None then ec_message w2 ec2 else ''unknown error'')\<rparr>, w2)
                else Some (\<lparr>ok = True, message = ''Wiped and deleted successfully''\<rparr>, w2))))"

subsection \<open>The directory sweep\<close>

text \<open>\<^verbatim>\<open>weakly_canonical\<close>: the canonical path, or the empty path and an error.\<close>
definition fs_weakly_canonical :: "world \<Rightarrow> path \<Rightarrow> path \<times> error_code" where
  "fs_weakly_canonical w p =
     (case canonical (env w) p of Inl e \<Rightarrow> ([], Some e) | Inr q \<Rightarrow> (q, None))"

text \<open>
  An \<^verbatim>\<open>fs::path\<close> is held as its string. On a POSIX system a path has no root name;
  it has a root directory when it starts with a separator, and its relative path is
  what follows the leading separators. The elements of the relative path are the file
  names between separators (several separators in a row count as one), and an empty
  last element when the path ends with a separator.
\<close>
primrec path_split :: "string \<Rightarrow> string list" where
  "path_split [] = [[]]"
| "path_split (c # cs) =
     (if c = CHR ''/'' then [] # path_split cs
      else (case path_split cs of [] \<Rightarrow> [[c]] | x # xs \<Rightarrow> (c # x) # xs))"

definition has_root_directory :: "path \<Rightarrow> bool" where
  "has_root_directory p = (case p of [] \<Rightarrow> False | c # cs \<Rightarrow> c = CHR ''/'')"

definition relative_path :: "path \<Rightarrow> path" where
  "relative_path p = dropWhile (\<lambda>c. c = CHR ''/'') p"

definition path_elements :: "path \<Rightarrow> string list" where
  "path_elements p =
     (let r = relative_path p in
      if r = [] then []
      else filter (\<lambda>x. x \<noteq> []) (butlast (path_split r)) @ [last (path_split r)])"

text \<open>\<^verbatim>\<open>operator==\<close> of \<^verbatim>\<open>fs::path\<close>: the same root directory and the same elements.\<close>
definition path_eq :: "path \<Rightarrow> path \<Rightarrow> bool" where
  "path_eq p q \<longleftrightarrow>
     has_root_directory p = has_root_directory q \<and> path_elements p = path_elements q"

text \<open>
  \<^verbatim>\<open>operator/\<close> of \<^verbatim>\<open>fs::path\<close>: an absolute right operand replaces the left one;
  otherwise it is appended, after a separator when the left operand ends with a file
  name.
\<close>
definition path_append :: "path \<Rightarrow> path \<Rightarrow> path" where
  "path_append a p =
     (if has_root_directory p then p
      else if a \<noteq> [] \<and> last a \<noteq> CHR ''/'' then a @ ''/'' @ p
      else a @ p)"

text \<open>
  \<^verbatim>\<open>absolute\<close>: the empty path is an error; an absolute path is returned as it is; a
  relative one is \<^verbatim>\<open>current_path() / p\<close>, an error when the current directory cannot
  be determined (the path returned with an error is not used by the caller).
\<close>
definition fs_absolute :: "world \<Rightarrow> path \<Rightarrow> path \<times> error_code" where
  "fs_absolute w p =
     (if p = [] then ([], Some EINVAL)
      else if has_root_directory p then (p, None)
      else case cwd (env w) of Inl e \<Rightarrow> ([], Some e) | Inr c \<Rightarrow> (path_append c p, None))"

definition is_dangerous_dir :: "path \<Rightarrow> world \<Rightarrow> bool" where
  "is_dangerous_dir p w =
     (case fs_weakly_canonical w p of (canon0, ec0) \<Rightarrow>
      case (if ec0 \<noteq> None then fs_absolute w p else (canon0, ec0)) of (canon, ec) \<Rightarrow>
      if ec \<noteq> None then True
      else if path_eq canon ''/'' then True
      else if path_eq canon ''/System'' \<or> path_eq canon ''/Library'' \<or>
              path_eq canon ''/Applications'' then True
      else (case env_HOME (env w) of
              Some home \<Rightarrow>
                (case fs_weakly_canonical w home of (homep, ec2) \<Rightarrow>
                   if ec2 = None \<and> path_eq canon homep then True else False)
            | None \<Rightarrow> False))"

text \<open>
  The entries a \<^verbatim>\<open>recursive_directory_iterator\<close> visits below an entry of the
  skeleton: the entry itself if it exists, then, if it is a directory that can be
  opened, what lies below it. A link to a directory is visited and not entered
  (the iterator is built without \<^verbatim>\<open>follow_directory_symlink\<close>).
\<close>
fun walk :: "world \<Rightarrow> dtree \<Rightarrow> path list" where
  "walk w (Entry p cs) =
     (case nodes w p of
        None \<Rightarrow> []
      | Some n \<Rightarrow>
          p # (if n = Directory \<and> \<not> unreadable (env w) p then concat (map (walk w) cs)
               else []))"

text \<open>
  The iteration from construction to the end iterator, as the list of its steps: the
  error code left by the construction or the increment, and the entry the iterator
  then points at. With \<^verbatim>\<open>skip_permission_denied\<close> a directory that cannot be opened
  gives no entries; a step that yields an entry leaves the code cleared.
\<close>
definition recursive_directory_iterator :: "world \<Rightarrow> path \<Rightarrow> (error_code \<times> path) list" where
  "recursive_directory_iterator w d =
     (if unreadable (env w) d then [] else map (Pair None) (concat (map (walk w) (tree (env w) d))))"

definition digit_char :: "nat \<Rightarrow> char" where
  "digit_char d = char_of (of_char (CHR ''0'') + d)"

text \<open>\<^verbatim>\<open>std::to_string\<close> of an unsigned value.\<close>
fun to_string :: "nat \<Rightarrow> string" where
  "to_string n = (if n < 10 then [digit_char n] else to_string (n div 10) @ [digit_char (n mod 10)])"

declare to_string.simps [simp del]

definition print_cout :: "string \<Rightarrow> world \<Rightarrow> world" where
  "print_cout s w = w\<lparr>cout := cout w @ [s]\<rparr>"

definition print_cerr :: "string \<Rightarrow> world \<Rightarrow> world" where
  "print_cerr s w = w\<lparr>cerr := cerr w @ [s]\<rparr>"

text \<open>First pass of \<^verbatim>\<open>wipe_directory\<close>: enumerate files (skip symlinks).\<close>
fun enumerate_files ::
  "bool \<Rightarrow> (error_code \<times> path) list \<Rightarrow> 64 word \<Rightarrow> world \<Rightarrow> 64 word \<times> world" where
  "enumerate_files dry_run [] total_files w = (total_files, w)"
| "enumerate_files dry_run ((ec, p) # rest) total_files w =
     (if ec \<noteq> None then enumerate_files dry_run rest total_files w
      else case fs_is_symlink w p of (sl, ec2) \<Rightarrow>
        if sl then enumerate_files dry_run rest total_files w
        else case fs_is_regular_file w p of (reg, ec2) \<Rightarrow>
          if reg \<and> ec2 = None then
            enumerate_files dry_run rest (total_files + 1)
              (if dry_run then print_cout (''[DRY-RUN] would wipe: '' @ p @ [CHR 0x0A]) w else w)
          else enumerate_files dry_run rest total_files w)"

text \<open>Execute: wipe files. The counters are \<open>wiped_files\<close> and \<open>failed_files\<close>.\<close>
fun execute_wipe ::
  "WipeOptions \<Rightarrow> (error_code \<times> path) list \<Rightarrow> 64 word \<Rightarrow> 64 word \<Rightarrow> world
     \<Rightarrow> (64 word \<times> 64 word \<times> world) option" where
  "execute_wipe opt [] wiped_files failed_files w = Some (wiped_files, failed_files, w)"
| "execute_wipe opt ((ec, p) # rest) wiped_files failed_files w =
     (if ec \<noteq> None then execute_wipe opt rest wiped_files failed_files w
      else case fs_is_symlink w p of (sl, ec2) \<Rightarrow>
        if sl then execute_wipe opt rest wiped_files failed_files w
        else case fs_is_regular_file w p of (reg, ec2) \<Rightarrow>
          if reg \<and> ec2 = None then
            (case wipe_file p opt w of
               None \<Rightarrow> None
             | Some (res, w1) \<Rightarrow>
                 if ok res then execute_wipe opt rest (wiped_files + 1) failed_files w1
                 else execute_wipe opt rest wiped_files (failed_files + 1)
                        (print_cerr (''[FAIL] '' @ p @ '' : '' @ message res @ [CHR 0x0A]) w1))
          else execute_wipe opt rest wiped_files failed_files w)"

text \<open>Cleanup: collect the directories, then remove them in reverse order.\<close>
fun collect_dirs :: "(error_code \<times> path) list \<Rightarrow> path list \<Rightarrow> world \<Rightarrow> path list" where
  "collect_dirs [] dirs w = dirs"
| "collect_dirs ((ec, p) # rest) dirs w =
     (if ec \<noteq> None then collect_dirs rest dirs w
      else case fs_is_directory w p of (isd, ec3) \<Rightarrow>
        if isd \<and> ec3 = None then collect_dirs rest (dirs @ [p]) w
        else collect_dirs rest dirs w)"

fun remove_dirs :: "path list \<Rightarrow> world \<Rightarrow> world" where
  "remove_dirs [] w = w"
| "remove_dirs (p # ps) w = (case fs_remove p w of (removed, ec4, w1) \<Rightarrow> remove_dirs ps w1)"

definition wipe_directory ::
  "path \<Rightarrow> WipeOptions \<Rightarrow> bool \<Rightarrow> bool \<Rightarrow> world \<Rightarrow> (WipeResult \<times> world) option" where
  "wipe_directory dir opt dry_run yes w =
     (case fs_exists w dir of (ex, ec0) \<Rightarrow>
      if \<not> ex \<or> ec0 \<noteq> None then Some (\<lparr>ok = False, message = ''Directory does not exist''\<rparr>, w)
      else case fs_is_directory w dir of (isd, ec1) \<Rightarrow>
      if \<not> isd \<or> ec1 \<noteq> None then Some (\<lparr>ok = False, message = ''Path is not a directory''\<rparr>, w)
      else if is_dangerous_dir dir w then
        Some (\<lparr>ok = False,
               message = ''Refusing to wipe a dangerous directory. Choose a safer target.''\<rparr>, w)
      else if \<not> dry_run \<and> \<not> yes then
        Some (\<lparr>ok = False,
               message = ''Safety stop: wipe-dir requires --dry-run (preview) or --yes (execute).''\<rparr>, w)
      else case enumerate_files dry_run (recursive_directory_iterator w dir) 0 w of
        (total_files, w1) \<Rightarrow>
      if dry_run then
        Some (\<lparr>ok = True,
               message = ''Dry-run complete. Files to wipe: '' @ to_string (unat total_files) @
                         ''. Re-run with --yes to execute.''\<rparr>, w1)
      else
        (case execute_wipe opt (recursive_directory_iterator w1 dir) 0 0 w1 of
           None \<Rightarrow> None
         | Some (wiped_files, failed_files, w2) \<Rightarrow>
             (let dirs = collect_dirs (recursive_directory_iterator w2 dir) [] w2;
                  w3 = remove_dirs (rev dirs) w2
              in Some (\<lparr>ok = (failed_files = 0),
                        message = ''wipe-dir complete. total='' @ to_string (unat total_files) @
                                  '', wiped='' @ to_string (unat wiped_files) @
                                  '', failed='' @ to_string (unat failed_files)\<rparr>, w3))))"

subsection \<open>Notions used in the statements\<close>

definition refusal :: WipeResult where
  "refusal = \<lparr>ok = False,
               message = ''Refusing to wipe a dangerous directory. Choose a safer target.''\<rparr>"

definition safety_stop :: WipeResult where
  "safety_stop = \<lparr>ok = False,
     message = ''Safety stop: wipe-dir requires --dry-run (preview) or --yes (execute).''\<rparr>"

text \<open>The fixed paths \<^verbatim>\<open>is_dangerous_dir\<close> refuses.\<close>
definition deny_list :: "path list" where
  "deny_list = [''/'', ''/System'', ''/Library'', ''/Applications'']"

text \<open>The path equals, as an \<^verbatim>\<open>fs::path\<close>, one of the fixed paths.\<close>
definition denied :: "path \<Rightarrow> bool" where
  "denied c = list_ex (path_eq c) deny_list"

text \<open>The path equals the canonical form of the home directory.\<close>
definition is_home :: "world \<Rightarrow> path \<Rightarrow> bool" where
  "is_home w c =
     (case env_HOME (env w) of
        None \<Rightarrow> False
      | Some h \<Rightarrow> (case canonical (env w) h of Inl e \<Rightarrow> False | Inr hc \<Rightarrow> path_eq c hc))"

text \<open>The home directory check has nothing to compare with.\<close>
definition home_unresolved :: "world \<Rightarrow> bool" where
  "home_unresolved w =
     (case env_HOME (env w) of
        None \<Rightarrow> True
      | Some h \<Rightarrow> (case canonical (env w) h of Inl e \<Rightarrow> True | Inr hc \<Rightarrow> False))"

text \<open>The target exists and is a directory, both queries without error.\<close>
definition existing_directory :: "world \<Rightarrow> path \<Rightarrow> bool" where
  "existing_directory w dir =
     (fs_exists w dir = (True, None) \<and> fs_is_directory w dir = (True, None))"

text \<open>An entry of a directory walk that the sweep treats as a file to wipe: its status
  can be queried and it is a regular file itself, not a link to one.\<close>
definition regular_entry :: "world \<Rightarrow> path \<Rightarrow> bool" where
  "regular_entry w p =
     (case stat_err (env w) p of
        Some e \<Rightarrow> False
      | None \<Rightarrow> (case nodes w p of Some (Regular bs) \<Rightarrow> True | _ \<Rightarrow> False))"

text \<open>The descendants of a directory, as the recursive iterator reports them.\<close>
definition descendants :: "world \<Rightarrow> path \<Rightarrow> path list" where
  "descendants w dir = map snd (recursive_directory_iterator w dir)"

definition regular_files :: "world \<Rightarrow> path \<Rightarrow> path list" where
  "regular_files w dir = filter (regular_entry w) (descendants w dir)"

definition preview_notice :: "path \<Rightarrow> string" where
  "preview_notice p = ''[DRY-RUN] would wipe: '' @ p @ [CHR 0x0A]"

text \<open>
  The blocks one pass hands to the file \<open>q\<close> when \<open>remaining\<close> bytes are left from offset
  \<open>off\<close> on and the block size is \<open>b\<close>: successive chunks of \<open>min b remaining\<close> zero bytes.
\<close>
function pass_writes :: "path \<Rightarrow> nat \<Rightarrow> nat \<Rightarrow> nat \<Rightarrow> (path \<times> nat \<times> byte list) list" where
  "pass_writes q remaining b off =
     (if remaining = 0 \<or> b = 0 then []
      else (q, off, replicate (min b remaining) 0) #
           pass_writes q (remaining - min b remaining) b (off + min b remaining))"
  by pat_completeness auto
termination
  by (relation "measure (\<lambda>(q, remaining, b, off). remaining)") auto

declare pass_writes.simps [simp del]

text \<open>The number of bytes in a list of blocks.\<close>
definition bytes_written :: "(path \<times> nat \<times> byte list) list \<Rightarrow> nat" where
  "bytes_written xs = sum_list (map (\<lambda>(q, off, bs). length bs) xs)"

text \<open>A block of zero bytes.\<close>
definition zero_block :: "path \<times> nat \<times> byte list \<Rightarrow> bool" where
  "zero_block e = (case e of (q, off, bs) \<Rightarrow> list_all (\<lambda>b. b = 0) bs)"

text \<open>The file the stream of \<open>wipe_file\<close> writes to: the path with links resolved.\<close>
definition wipe_target :: "world \<Rightarrow> path \<Rightarrow> path" where
  "wipe_target w path = (case resolve w path of (None, Some q) \<Rightarrow> q | _ \<Rightarrow> path)"

text \<open>Two states of one path that differ at most in the content of a regular file.\<close>
definition same_shape :: "node option \<Rightarrow> node option \<Rightarrow> bool" where
  "same_shape a b = (a = b \<or> (\<exists>x y. a = Some (Regular x) \<and> b = Some (Regular y)))"

text \<open>What overwriting the file \<open>q\<close> may change: the content of \<open>q\<close>, the number of
  operations, the error number, the random position and the sink; nothing else.\<close>
definition overwrite_frame :: "path \<Rightarrow> world \<Rightarrow> world \<Rightarrow> bool" where
  "overwrite_frame q w w' \<longleftrightarrow>
     env w' = env w \<and> io_count w \<le> io_count w' \<and> cout w' = cout w \<and> cerr w' = cerr w \<and>
     (\<forall>p. p \<noteq> q \<longrightarrow> nodes w' p = nodes w p) \<and> same_shape (nodes w q) (nodes w' q)"

text \<open>No operation between the two states met a failure of the operating system.\<close>
definition fault_free :: "world \<Rightarrow> world \<Rightarrow> bool" where
  "fault_free w w' \<longleftrightarrow>
     (\<forall>n. io_count w \<le> n \<and> n < io_count w' \<longrightarrow> io_fault (env w) n = None)"

text \<open>The blocks written between two states.\<close>
definition new_writes :: "world \<Rightarrow> world \<Rightarrow> (path \<times> nat \<times> byte list) list" where
  "new_writes w w' = drop (length (sink w)) (sink w')"

text \<open>Between the two states blocks were written to the file \<open>q\<close> only, and zero
  blocks only when the pattern is \<open>Zeros\<close>.\<close>
definition writes_to :: "path \<Rightarrow> Pattern \<Rightarrow> world \<Rightarrow> world \<Rightarrow> bool" where
  "writes_to q pat w w' \<longleftrightarrow>
     (\<exists>xs. sink w' = sink w @ xs \<and>
           list_all (\<lambda>e. fst e = q \<and> (pat = Zeros \<longrightarrow> zero_block e)) xs)"

text \<open>The four checks at the start of \<open>wipe_file\<close> all pass.\<close>
definition checks_pass :: "world \<Rightarrow> path \<Rightarrow> WipeOptions \<Rightarrow> bool" where
  "checks_pass w path opt =
     (fst (fs_exists w path) \<and> fst (fs_is_regular_file w path) \<and>
      snd (fs_file_size w path) = None \<and> 0 < sint (passes opt))"

text \<open>The overwrite passes of \<open>wipe_file\<close>, as it starts them after the checks.\<close>
definition overwrite_passes ::
  "path \<Rightarrow> WipeOptions \<Rightarrow> world \<Rightarrow> ((WipeResult \<times> world) + (byte list \<times> world)) option" where
  "overwrite_passes path opt w =
     pass_loop path opt (fst (fs_file_size w path)) (replicate (block_size opt) 0) 1 w"

text \<open>The regular files below \<open>dir\<close> in the state \<open>w\<close> that are gone in the state \<open>w'\<close>,
  and those that are still there.\<close>
definition files_wiped :: "world \<Rightarrow> world \<Rightarrow> path \<Rightarrow> path list" where
  "files_wiped w w' dir = [p \<leftarrow> regular_files w dir. nodes w' p = None]"

definition files_left :: "world \<Rightarrow> world \<Rightarrow> path \<Rightarrow> path list" where
  "files_left w w' dir = [p \<leftarrow> regular_files w dir. nodes w' p \<noteq> None]"

text \<open>The line the sweep prints for a file on which \<open>wipe_file\<close> failed.\<close>
definition fail_notice :: "path \<Rightarrow> WipeResult \<Rightarrow> string" where
  "fail_notice p r = ''[FAIL] '' @ p @ '' : '' @ message r @ [CHR 0x0A]"

text \<open>
  The execute pass in the words of the specification: the overwrite engine is invoked
  on every file of the list in turn; a failure is reported on the error stream and the
  next file is taken. The value is the list of the files, each with the result of its
  call, and the machine after the last call.
\<close>
fun wipe_each ::
  "WipeOptions \<Rightarrow> path list \<Rightarrow> world \<Rightarrow> ((path \<times> WipeResult) list \<times> world) option" where
  "wipe_each opt [] w = Some ([], w)"
| "wipe_each opt (p # ps) w =
     (case wipe_file p opt w of
        None \<Rightarrow> None
      | Some (r, w1) \<Rightarrow>
          (case wipe_each opt ps (if ok r then w1 else print_cerr (fail_notice p r) w1) of
             None \<Rightarrow> None
           | Some (rs, w') \<Rightarrow> Some ((p, r) # rs, w')))"

text \<open>The calls that succeeded and the calls that failed.\<close>
definition successes :: "(path \<times> WipeResult) list \<Rightarrow> (path \<times> WipeResult) list" where
  "successes rs = filter (\<lambda>x. ok (snd x)) rs"

definition failures :: "(path \<times> WipeResult) list \<Rightarrow> (path \<times> WipeResult) list" where
  "failures rs = filter (\<lambda>x. \<not> ok (snd x)) rs"

text \<open>The cleanup at the end of \<open>wipe_directory\<close>: the directories found below \<open>dir\<close> are
  removed in reverse order.\<close>
definition cleanup :: "path \<Rightarrow> world \<Rightarrow> world" where
  "cleanup dir w =
     remove_dirs (rev (collect_dirs (recursive_directory_iterator w dir) [] w)) w"


subsection \<open>A small machine for the examples\<close>

definition example_env :: environment where
  "example_env =
     \<lparr>tree = (\<lambda>p. if p = ''/t'' then
                      [Entry ''/t/a'' [], Entry ''/t/lnk'' [], Entry ''/t/odd'' [],
                       Entry ''/t/sub'' [Entry ''/t/sub/b'' []]]
                    else if p = ''/t/sub'' then [Entry ''/t/sub/b'' []]
                    else []),
      unreadable = (\<lambda>p. False),
      stat_err = (\<lambda>p. None),
      size_err = (\<lambda>p. if p = ''/t/odd'' then Some 5 else None),
      canonical = (\<lambda>p. if p = ''rel'' \<or> p = ''/mnt/x'' then Inl 13 else Inr p),
      cwd = Inl 2,
      env_HOME = Some ''/home/u'',
      io_fault = (\<lambda>n. None),
      strerror = (\<lambda>e. ''Input/output error''),
      random_bytes = (\<lambda>n. 0)\<rparr>"

definition example_world :: world where
  "example_world =
     \<lparr>env = example_env,
      nodes = [''/'' \<mapsto> Directory, ''/home/u'' \<mapsto> Directory, ''rel'' \<mapsto> Directory,
               ''/mnt/x'' \<mapsto> Directory, ''/other'' \<mapsto> Directory,
               ''/t'' \<mapsto> Directory, ''/t/a'' \<mapsto> Regular [1, 2, 3, 4, 5],
               ''/t/lnk'' \<mapsto> Symlink ''/other'', ''/t/odd'' \<mapsto> Regular [9],
               ''/t/sub'' \<mapsto> Directory, ''/t/sub/b'' \<mapsto> Regular [7]],
      io_count = 0, errno = 0, random_pos = 0, sink = [], cout = [], cerr = []\<rparr>"

definition example_options :: WipeOptions where
  "example_options = \<lparr>passes = 2, pattern = Zeros, block_size = 2\<rparr>"

text \<open>A machine where no path can be made canonical, the current directory is the
  root and HOME is unset.\<close>
definition fallback_world :: world where
  "fallback_world =
     \<lparr>env = example_env\<lparr>canonical := (\<lambda>p. Inl 13), cwd := Inr ''/'', env_HOME := None\<rparr>,
      nodes = [''//'' \<mapsto> Directory, ''System'' \<mapsto> Directory, ''data'' \<mapsto> Directory],
      io_count = 0, errno = 0, random_pos = 0, sink = [], cout = [], cerr = []\<rparr>"

text \<open>The example machine with a failure of the operating system at the seventh
  operation (the operations are counted from 0).\<close>
definition faulty_world :: world where
  "faulty_world =
     example_world\<lparr>env := example_env\<lparr>io_fault := (\<lambda>n. if n = 6 then Some 5 else None)\<rparr>\<rparr>"

text \<open>A machine without failures: a directory with one file and one link that points
  to a directory outside of it.\<close>
definition link_world :: world where
  "link_world =
     \<lparr>env = example_env
              \<lparr>tree := (\<lambda>p. if p = ''/d'' then [Entry ''/d/f'' [], Entry ''/d/lnk'' []] else []),
               size_err := (\<lambda>p. None)\<rparr>,
      nodes = [''/d'' \<mapsto> Directory, ''/d/f'' \<mapsto> Regular [1, 2, 3],
               ''/d/lnk'' \<mapsto> Symlink ''/outside'', ''/outside'' \<mapsto> Directory],
      io_count = 0, errno = 0, random_pos = 0, sink = [], cout = [], cerr = []\<rparr>"

section \<open>Properties\<close>

subsection \<open>The checks of \<open>wipe_file\<close>\<close>

text \<open>
  C2. \<open>wipe_file\<close> checks its preconditions in this order, the first failure wins: a
  path that does not exist gives "Path does not exist" (whatever \<open>passes\<close> is); a path
  that exists and is not a regular file gives "Path is not a regular file ..."; a file
  whose size cannot be determined gives the error of the file system; \<open>passes < 1\<close>
  gives "passes must be >= 1". In each case the result has \<open>ok = False\<close> and the state of
  the machine, the file included, is the one before the call.
\<close>
theorem wipe_file_precondition_order:
  "(\<not> fst (fs_exists w path) \<longrightarrow>
      wipe_file path opt w = Some (\<lparr>ok = False, message = ''Path does not exist''\<rparr>, w)) \<and>
   (fst (fs_exists w path) \<and> \<not> fst (fs_is_regular_file w path) \<longrightarrow>
      wipe_file path opt w =
        Some (\<lparr>ok = False,
               message = ''Path is not a regular file (directories not supported in MVP)''\<rparr>, w)) \<and>
   (fst (fs_exists w path) \<and> fst (fs_is_regular_file w path) \<and>
    snd (fs_file_size w path) = Some e \<longrightarrow>
      wipe_file path opt w =
        Some (\<lparr>ok = False,
               message = ''Failed to get file size: '' @ strerror (env w) e\<rparr>, w)) \<and>
   (fst (fs_exists w path) \<and> fst (fs_is_regular_file w path) \<and>
    snd (fs_file_size w path) = None \<and> sint (passes opt) < 1 \<longrightarrow>
      wipe_file path opt w = Some (\<lparr>ok = False, message = ''passes must be >= 1''\<rparr>, w))"
  by (auto simp: wipe_file_def ec_message_def split: prod.splits)

theorem wipe_file_precondition_order_witness:
  "wipe_file ''/nope'' (example_options\<lparr>passes := 0\<rparr>) example_world =
     Some (\<lparr>ok = False, message = ''Path does not exist''\<rparr>, example_world) \<and>
   wipe_file ''/t'' example_options example_world =
     Some (\<lparr>ok = False,
            message = ''Path is not a regular file (directories not supported in MVP)''\<rparr>,
           example_world) \<and>
   wipe_file ''/t/odd'' example_options example_world =
     Some (\<lparr>ok = False,
            message = ''Failed to get file size: '' @ strerror (env example_world) 5\<rparr>,
           example_world) \<and>
   wipe_file ''/t/a'' (example_options\<lparr>passes := 0\<rparr>) example_world =
     Some (\<lparr>ok = False, message = ''passes must be >= 1''\<rparr>, example_world)"
proof -
  have h1: "\<not> fst (fs_exists example_world ''/nope'')"
    by code_simp
  have h2: "fst (fs_exists example_world ''/t'') \<and>
            \<not> fst (fs_is_regular_file example_world ''/t'')"
    by code_simp
  have h3: "fst (fs_exists example_world ''/t/odd'') \<and>
            fst (fs_is_regular_file example_world ''/t/odd'') \<and>
            snd (fs_file_size example_world ''/t/odd'') = Some 5"
    by code_simp
  have h4: "fst (fs_exists example_world ''/t/a'') \<and>
            fst (fs_is_regular_file example_world ''/t/a'') \<and>
            snd (fs_file_size example_world ''/t/a'') = None \<and>
            sint (passes (example_options\<lparr>passes := 0\<rparr>)) < 1"
    by code_simp
  have c1: "wipe_file ''/nope'' (example_options\<lparr>passes := 0\<rparr>) example_world =
      Some (\<lparr>ok = False, message = ''Path does not exist''\<rparr>, example_world)"
    using h1 wipe_file_precondition_order
        [where w = example_world and path = "''/nope''" and opt = "example_options\<lparr>passes := 0\<rparr>"]
    by simp
  have c2: "wipe_file ''/t'' example_options example_world =
      Some (\<lparr>ok = False,
             message = ''Path is not a regular file (directories not supported in MVP)''\<rparr>,
            example_world)"
    using h2 wipe_file_precondition_order
        [where w = example_world and path = "''/t''" and opt = example_options]
    by simp
  have c3: "wipe_file ''/t/odd'' example_options example_world =
      Some (\<lparr>ok = False,
             message = ''Failed to get file size: '' @ strerror (env example_world) 5\<rparr>,
            example_world)"
    using h3 wipe_file_precondition_order
        [where w = example_world and path = "''/t/odd''" and opt = example_options and e = 5]
    by simp
  have c4: "wipe_file ''/t/a'' (example_options\<lparr>passes := 0\<rparr>) example_world =
      Some (\<lparr>ok = False, message = ''passes must be >= 1''\<rparr>, example_world)"
    using h4 wipe_file_precondition_order
        [where w = example_world and path = "''/t/a''" and opt = "example_options\<lparr>passes := 0\<rparr>"]
    by simp
  from c1 c2 c3 c4 show ?thesis
    by (intro conjI)
qed

subsection \<open>The safety gate of \<open>wipe_directory\<close>\<close>

lemma path_eq_refl [simp]: "path_eq p p"
  by (simp add: path_eq_def)

lemma denied_member: "c \<in> set deny_list \<Longrightarrow> denied c"
  unfolding denied_def list_ex_iff by (rule bexI [where x = c]) simp_all

lemma denied_iff:
  "denied c \<longleftrightarrow>
     path_eq c ''/'' \<or> path_eq c ''/System'' \<or> path_eq c ''/Library'' \<or>
     path_eq c ''/Applications''"
  by (simp add: denied_def deny_list_def)

lemma is_dangerous_dir_canonical:
  "canonical (env w) dir = Inr c \<Longrightarrow> is_dangerous_dir dir w = (denied c \<or> is_home w c)"
  by (auto simp: is_dangerous_dir_def fs_weakly_canonical_def denied_iff is_home_def
           split: option.splits sum.splits)

lemma is_dangerous_dir_fallback:
  "canonical (env w) dir = Inl e \<Longrightarrow>
   is_dangerous_dir dir w =
     (case fs_absolute w dir of
        (a, Some e') \<Rightarrow> True
      | (a, None) \<Rightarrow> denied a \<or> is_home w a)"
  by (auto simp: is_dangerous_dir_def fs_weakly_canonical_def denied_iff is_home_def
           split: prod.splits option.splits sum.splits)

lemma wipe_directory_dangerous:
  "existing_directory w dir \<Longrightarrow> is_dangerous_dir dir w \<Longrightarrow>
   wipe_directory dir opt dry_run yes w = Some (refusal, w)"
  by (simp add: wipe_directory_def existing_directory_def refusal_def)

text \<open>
  C4. For every combination of \<open>dry_run\<close> and \<open>yes\<close>: when the target is an existing
  directory whose canonical path equals the root, one of the fixed system directories,
  or the canonical form of the directory named by HOME, \<open>wipe_directory\<close> returns the
  refusal with \<open>ok = False\<close> and the state of the machine is the one before the call
  (nothing was traversed, printed or changed). Paths are equal as \<^verbatim>\<open>fs::path\<close> values;
  a path that is one of the fixed paths character by character is equal to it. When
  HOME is unset or cannot be resolved, the home directory check is skipped: a canonical
  path that equals none of the fixed paths is not dangerous.
\<close>
theorem wipe_directory_refuses_dangerous:
  "existing_directory w dir \<and> canonical (env w) dir = Inr c \<longrightarrow>
     ((c \<in> set deny_list \<or> denied c \<or> is_home w c \<longrightarrow>
         wipe_directory dir opt dry_run yes w = Some (refusal, w)) \<and>
      (\<not> denied c \<and> home_unresolved w \<longrightarrow> \<not> is_dangerous_dir dir w))"
proof (intro impI conjI)
  assume a: "existing_directory w dir \<and> canonical (env w) dir = Inr c"
    and b: "c \<in> set deny_list \<or> denied c \<or> is_home w c"
  from b have "denied c \<or> is_home w c"
    by (auto dest: denied_member)
  with a have "is_dangerous_dir dir w"
    by (simp add: is_dangerous_dir_canonical)
  with a show "wipe_directory dir opt dry_run yes w = Some (refusal, w)"
    by (simp add: wipe_directory_dangerous)
next
  assume a: "existing_directory w dir \<and> canonical (env w) dir = Inr c"
    and b: "\<not> denied c \<and> home_unresolved w"
  from b have "\<not> is_home w c"
    by (auto simp: is_home_def home_unresolved_def split: option.splits sum.splits)
  with a b show "\<not> is_dangerous_dir dir w"
    by (simp add: is_dangerous_dir_canonical)
qed

theorem wipe_directory_refuses_dangerous_witness:
  "wipe_directory ''/'' example_options False True example_world =
     Some (refusal, example_world) \<and>
   wipe_directory ''/home/u'' example_options True False example_world =
     Some (refusal, example_world) \<and>
   \<not> is_dangerous_dir ''/t'' (example_world\<lparr>env := example_env\<lparr>env_HOME := None\<rparr>\<rparr>)"
proof -
  let ?w = "example_world\<lparr>env := example_env\<lparr>env_HOME := None\<rparr>\<rparr>"
  have h1: "existing_directory example_world ''/'' \<and>
            canonical (env example_world) ''/'' = Inr ''/''"
    by code_simp
  have h2: "''/'' \<in> set deny_list"
    by code_simp
  have h3: "existing_directory example_world ''/home/u'' \<and>
            canonical (env example_world) ''/home/u'' = Inr ''/home/u''"
    by code_simp
  have h4: "is_home example_world ''/home/u''"
    by code_simp
  have h5: "existing_directory ?w ''/t'' \<and> canonical (env ?w) ''/t'' = Inr ''/t''"
    by code_simp
  have h6: "\<not> denied ''/t'' \<and> home_unresolved ?w"
    by code_simp
  show ?thesis
    using h1 h2 h3 h4 h5 h6
      wipe_directory_refuses_dangerous
        [where w = example_world and dir = "''/''" and c = "''/''" and opt = example_options
           and dry_run = False and yes = True]
      wipe_directory_refuses_dangerous
        [where w = example_world and dir = "''/home/u''" and c = "''/home/u''"
           and opt = example_options and dry_run = True and yes = False]
      wipe_directory_refuses_dangerous
        [where w = ?w and dir = "''/t''" and c = "''/t''" and opt = example_options
           and dry_run = True and yes = False]
    by blast
qed

text \<open>
  C5, as the claim states it, fails: when \<^verbatim>\<open>weakly_canonical\<close> fails, \<open>is_dangerous_dir\<close>
  falls back to \<^verbatim>\<open>absolute\<close>, and when that succeeds the target is judged by its
  absolute path. Here canonicalization of the existing directory \<open>/mnt/x\<close> fails and the
  dry run goes ahead with \<open>ok = True\<close>.
\<close>
theorem canonicalization_failure_counterexample:
  "existing_directory example_world ''/mnt/x'' \<and>
   snd (fs_weakly_canonical example_world ''/mnt/x'') \<noteq> None \<and>
   \<not> is_dangerous_dir ''/mnt/x'' example_world \<and>
   map_option (ok \<circ> fst) (wipe_directory ''/mnt/x'' example_options True False example_world)
     = Some True"
  by code_simp

text \<open>
  C5, amended. For every existing directory and every combination of \<open>dry_run\<close> and
  \<open>yes\<close>: if \<^verbatim>\<open>weakly_canonical\<close> fails and the fallback \<^verbatim>\<open>absolute\<close> fails as well,
  \<open>wipe_directory\<close> returns the refusal and leaves the machine as it was (fail closed).
  If the fallback succeeds, the absolute path takes the place of the canonical one in
  the checks of \<open>is_dangerous_dir\<close>: the directory is dangerous exactly when its absolute
  path equals, as an \<^verbatim>\<open>fs::path\<close>, one of the fixed paths or the canonical home
  directory, and it is refused then.
\<close>
theorem canonicalization_failure_fails_closed:
  "existing_directory w dir \<and> canonical (env w) dir = Inl e \<longrightarrow>
     (snd (fs_absolute w dir) \<noteq> None \<longrightarrow>
        wipe_directory dir opt dry_run yes w = Some (refusal, w)) \<and>
     (snd (fs_absolute w dir) = None \<longrightarrow>
        is_dangerous_dir dir w =
          (denied (fst (fs_absolute w dir)) \<or> is_home w (fst (fs_absolute w dir)))) \<and>
     (snd (fs_absolute w dir) = None \<and>
      (denied (fst (fs_absolute w dir)) \<or> is_home w (fst (fs_absolute w dir))) \<longrightarrow>
        wipe_directory dir opt dry_run yes w = Some (refusal, w))"
proof (intro impI conjI)
  assume a: "existing_directory w dir \<and> canonical (env w) dir = Inl e"
    and b: "snd (fs_absolute w dir) \<noteq> None"
  from a b have "is_dangerous_dir dir w"
    by (auto simp: is_dangerous_dir_fallback split: prod.splits option.splits)
  with a show "wipe_directory dir opt dry_run yes w = Some (refusal, w)"
    by (simp add: wipe_directory_dangerous)
next
  assume a: "existing_directory w dir \<and> canonical (env w) dir = Inl e"
    and b: "snd (fs_absolute w dir) = None"
  from a b show "is_dangerous_dir dir w =
      (denied (fst (fs_absolute w dir)) \<or> is_home w (fst (fs_absolute w dir)))"
    by (auto simp: is_dangerous_dir_fallback split: prod.splits option.splits)
next
  assume a: "existing_directory w dir \<and> canonical (env w) dir = Inl e"
    and b: "snd (fs_absolute w dir) = None \<and>
      (denied (fst (fs_absolute w dir)) \<or> is_home w (fst (fs_absolute w dir)))"
  from a b have "is_dangerous_dir dir w"
    by (auto simp: is_dangerous_dir_fallback split: prod.splits option.splits)
  with a show "wipe_directory dir opt dry_run yes w = Some (refusal, w)"
    by (simp add: wipe_directory_dangerous)
qed

theorem canonicalization_failure_fails_closed_witness:
  "wipe_directory ''rel'' example_options True False example_world =
     Some (refusal, example_world) \<and>
   \<not> is_dangerous_dir ''/mnt/x'' example_world \<and>
   fs_absolute fallback_world ''System'' = (''/System'', None) \<and>
   wipe_directory ''System'' example_options True False fallback_world =
     Some (refusal, fallback_world) \<and>
   wipe_directory ''//'' example_options False True fallback_world =
     Some (refusal, fallback_world) \<and>
   \<not> is_dangerous_dir ''data'' fallback_world"
proof -
  note t = canonicalization_failure_fails_closed
    [where e = 13 and opt = example_options]
  have h1: "existing_directory example_world ''rel'' \<and>
            canonical (env example_world) ''rel'' = Inl 13"
    by code_simp
  have h2: "snd (fs_absolute example_world ''rel'') \<noteq> None"
    by code_simp
  have h3: "existing_directory example_world ''/mnt/x'' \<and>
            canonical (env example_world) ''/mnt/x'' = Inl 13"
    by code_simp
  have h4: "snd (fs_absolute example_world ''/mnt/x'') = None \<and>
            \<not> (denied (fst (fs_absolute example_world ''/mnt/x'')) \<or>
               is_home example_world (fst (fs_absolute example_world ''/mnt/x'')))"
    by code_simp
  have h5: "existing_directory fallback_world ''System'' \<and>
            canonical (env fallback_world) ''System'' = Inl 13"
    by code_simp
  have h6: "fs_absolute fallback_world ''System'' = (''/System'', None)"
    by code_simp
  have h7: "snd (fs_absolute fallback_world ''System'') = None \<and>
            (denied (fst (fs_absolute fallback_world ''System'')) \<or>
             is_home fallback_world (fst (fs_absolute fallback_world ''System'')))"
    by code_simp
  have h8: "existing_directory fallback_world ''//'' \<and>
            canonical (env fallback_world) ''//'' = Inl 13"
    by code_simp
  have h9: "snd (fs_absolute fallback_world ''//'') = None \<and>
            (denied (fst (fs_absolute fallback_world ''//'')) \<or>
             is_home fallback_world (fst (fs_absolute fallback_world ''//'')))"
    by code_simp
  have h10: "existing_directory fallback_world ''data'' \<and>
             canonical (env fallback_world) ''data'' = Inl 13"
    by code_simp
  have h11: "snd (fs_absolute fallback_world ''data'') = None \<and>
             \<not> (denied (fst (fs_absolute fallback_world ''data'')) \<or>
                is_home fallback_world (fst (fs_absolute fallback_world ''data'')))"
    by code_simp
  have c1: "wipe_directory ''rel'' example_options True False example_world =
      Some (refusal, example_world)"
    using h1 h2 t [where w = example_world and dir = "''rel''" and dry_run = True and yes = False]
    by simp
  have c2: "\<not> is_dangerous_dir ''/mnt/x'' example_world"
    using h3 h4
      t [where w = example_world and dir = "''/mnt/x''" and dry_run = True and yes = False]
    by simp
  have c3: "wipe_directory ''System'' example_options True False fallback_world =
      Some (refusal, fallback_world)"
    using h5 h7
      t [where w = fallback_world and dir = "''System''" and dry_run = True and yes = False]
    by simp
  have c4: "wipe_directory ''//'' example_options False True fallback_world =
      Some (refusal, fallback_world)"
    using h8 h9
      t [where w = fallback_world and dir = "''//''" and dry_run = False and yes = True]
    by simp
  have c5: "\<not> is_dangerous_dir ''data'' fallback_world"
    using h10 h11
      t [where w = fallback_world and dir = "''data''" and dry_run = True and yes = False]
    by simp
  from c1 c2 h6 c3 c4 c5 show ?thesis
    by (intro conjI)
qed

text \<open>
  C6. For every existing directory that is not dangerous, \<open>wipe_directory\<close> with
  \<open>dry_run = False\<close> and \<open>yes = False\<close> returns the safety stop with \<open>ok = False\<close>, and the
  state of the machine is the one before the call: no file system object has changed,
  nothing has been enumerated or printed.
\<close>
theorem wipe_directory_safety_stop:
  "existing_directory w dir \<and> \<not> is_dangerous_dir dir w \<longrightarrow>
   wipe_directory dir opt False False w = Some (safety_stop, w) \<and> \<not> ok safety_stop"
  by (simp add: wipe_directory_def existing_directory_def safety_stop_def)

theorem wipe_directory_safety_stop_witness:
  "wipe_directory ''/t'' example_options False False example_world =
     Some (safety_stop, example_world) \<and>
   \<not> ok safety_stop"
proof -
  have h: "existing_directory example_world ''/t'' \<and> \<not> is_dangerous_dir ''/t'' example_world"
    by code_simp
  show ?thesis
    using h wipe_directory_safety_stop
      [where w = example_world and dir = "''/t''" and opt = example_options]
    by blast
qed

subsection \<open>Effects of the stream and file operations\<close>

lemma same_shape_refl [simp]: "same_shape a a"
  by (simp add: same_shape_def)

lemma same_shape_trans: "same_shape a b \<Longrightarrow> same_shape b c \<Longrightarrow> same_shape a c"
  by (auto simp: same_shape_def)

lemma overwrite_frame_refl [simp]: "overwrite_frame q w w"
  by (simp add: overwrite_frame_def)

lemma overwrite_frame_trans:
  "overwrite_frame q w w1 \<Longrightarrow> overwrite_frame q w1 w2 \<Longrightarrow> overwrite_frame q w w2"
  by (auto simp: overwrite_frame_def intro: same_shape_trans)

lemma fault_free_refl [simp]: "fault_free w w"
  by (auto simp: fault_free_def)

lemma fault_free_trans:
  "fault_free w w1 \<Longrightarrow> fault_free w1 w2 \<Longrightarrow> env w1 = env w \<Longrightarrow> fault_free w w2"
  by (auto simp: fault_free_def) (metis not_le_imp_less)

lemma fill_random_effect:
  "fill_random i chunk buf w = (buf', w') \<Longrightarrow>
   length buf' = length buf \<and> w' = w\<lparr>random_pos := random_pos w + (chunk - i)\<rparr>"
proof (induction i chunk buf w rule: fill_random.induct)
  case (1 i chunk buf w)
  show ?case
  proof (cases "i < chunk")
    case True
    with 1 show ?thesis
      by (simp add: draw_def Suc_diff_Suc)
  next
    case False
    with "1.prems" show ?thesis by simp
  qed
qed

lemma ofstream_write_good:
  assumes "ofstream_write bs ofs w = (ofs', w')" "\<not> failed ofs'"
  shows "io_fault (env w) (io_count w) = None \<and> io_count w' = Suc (io_count w) \<and>
         target ofs' = target ofs \<and> pos ofs' = pos ofs + length bs \<and>
         sink w' = sink w @ [(target ofs, pos ofs, bs)] \<and>
         overwrite_frame (target ofs) w w'"
  using assms
  by (auto simp: ofstream_write_def next_fault_def overwrite_frame_def same_shape_def
           split: if_splits option.splits node.splits)

lemma ofstream_write_bad:
  assumes "ofstream_write bs ofs w = (ofs', w')" "failed ofs'"
  shows "sink w' = sink w \<and> overwrite_frame (target ofs) w w' \<and> nodes w' = nodes w"
  using assms
  by (auto simp: ofstream_write_def next_fault_def overwrite_frame_def
           split: if_splits option.splits node.splits)

lemma ofstream_write_regular:
  assumes "nodes w (target ofs) = Some (Regular old)" "\<not> failed ofs"
    "io_fault (env w) (io_count w) = None"
  shows "\<not> failed (fst (ofstream_write bs ofs w))"
  using assms by (simp add: ofstream_write_def next_fault_def)

lemma flush_to_disk_effect:
  assumes "flush_to_disk ofs w = (flushed, ofs', w')"
  shows "sink w' = sink w \<and> nodes w' = nodes w \<and> overwrite_frame q w w' \<and>
         (flushed \<longrightarrow> fault_free w w')"
  using assms
  by (auto simp: flush_to_disk_def ofstream_flush_def next_fault_def overwrite_frame_def
        fault_free_def less_Suc_eq_le
           split: if_splits option.splits prod.splits)

lemma follow_frame:
  "env w' = env w \<and> (\<forall>p. p \<noteq> q \<longrightarrow> nodes w' p = nodes w p) \<and>
   same_shape (nodes w q) (nodes w' q) \<Longrightarrow> follow k w' p = follow k w p"
proof (induction k arbitrary: p)
  case 0
  then show ?case by simp
next
  case (Suc k)
  have "same_shape (nodes w p) (nodes w' p)"
    using Suc.prems by (cases "p = q") auto
  moreover have "env w' = env w"
    using Suc.prems by simp
  ultimately show ?case
    using Suc.IH [OF Suc.prems]
    by (auto simp: same_shape_def split: option.splits node.splits)
qed

lemma follow_io_count [simp]: "follow k (w\<lparr>io_count := n\<rparr>) p = follow k w p"
  by (rule follow_frame [where q = p]) simp

lemma ofstream_open_effect:
  assumes "ofstream_open p w = (ofs, w')"
  shows "sink w' = sink w \<and> nodes w' = nodes w \<and> overwrite_frame q w w' \<and> pos ofs = 0 \<and>
         (\<not> failed ofs \<longrightarrow> fault_free w w' \<and> resolve w p = (None, Some (target ofs)) \<and>
            (\<exists>bs. nodes w (target ofs) = Some (Regular bs)))"
  using assms
  by (auto simp: ofstream_open_def next_fault_def overwrite_frame_def fault_free_def
        less_Suc_eq_le resolve_def
      split: if_splits option.splits prod.splits node.splits)

subsection \<open>Invariant rules for the two loops\<close>

lemma write_chunks_invariant:
  assumes run: "write_chunks opt rem0 buf0 ofs0 w0 = Some res0"
    and init: "I rem0 buf0 ofs0 w0"
    and step: "\<And>rem buf ofs w rem1 buf1 ofs1 w1.
        I rem buf ofs w \<Longrightarrow> 0 < rem \<Longrightarrow>
        write_chunk opt rem buf ofs w = Inr (rem1, buf1, ofs1, w1) \<Longrightarrow> I rem1 buf1 ofs1 w1"
    and fails: "\<And>rem buf ofs w r.
        I rem buf ofs w \<Longrightarrow> 0 < rem \<Longrightarrow> write_chunk opt rem buf ofs w = Inl r \<Longrightarrow> Q (Inl r)"
    and finish: "\<And>buf ofs w. I 0 buf ofs w \<Longrightarrow> Q (Inr (buf, ofs, w))"
  shows "Q res0"
proof -
  have "opt = opt \<longrightarrow> I rem0 buf0 ofs0 w0 \<longrightarrow> Q res0"
  proof (rule write_chunks.raw_induct
      [where P = "\<lambda>opt' rem buf ofs w res. opt' = opt \<longrightarrow> I rem buf ofs w \<longrightarrow> Q res", OF _ run])
    fix f opt' rem buf ofs w res
    assume ih: "\<And>opt' rem buf ofs w res.
        f opt' rem buf ofs w = Some res \<Longrightarrow> opt' = opt \<longrightarrow> I rem buf ofs w \<longrightarrow> Q res"
      and body: "(if 0 < rem then
                   (case write_chunk opt' rem buf ofs w of
                      Inl r \<Rightarrow> Some (Inl r)
                    | Inr (remaining1, buf1, ofs1, w1) \<Rightarrow> f opt' remaining1 buf1 ofs1 w1)
                  else Some (Inr (buf, ofs, w))) = Some res"
    show "opt' = opt \<longrightarrow> I rem buf ofs w \<longrightarrow> Q res"
    proof (intro impI)
      assume o: "opt' = opt" and i: "I rem buf ofs w"
      show "Q res"
      proof (cases "0 < rem")
        case False
        with body i finish show ?thesis by auto
      next
        case True
        show ?thesis
        proof (cases "write_chunk opt rem buf ofs w")
          case (Inl r)
          from body True o Inl have "res = Inl r" by simp
          with fails [OF i True Inl] show ?thesis by simp
        next
          case (Inr x)
          obtain rem1 buf1 ofs1 w1 where x: "x = (rem1, buf1, ofs1, w1)"
            by (cases x) auto
          from body True o Inr x have "f opt rem1 buf1 ofs1 w1 = Some res"
            by simp
          moreover have "I rem1 buf1 ofs1 w1"
            using step [OF i True] Inr x by simp
          ultimately show ?thesis
            using ih by blast
        qed
      qed
    qed
  qed
  with init show ?thesis by simp
qed

lemma pass_loop_invariant:
  assumes run: "pass_loop path opt S buf0 pass0 w0 = Some res0"
    and init: "I buf0 pass0 w0"
    and step: "\<And>buf pass w buf2 w3.
        I buf pass w \<Longrightarrow> sint pass \<le> sint (passes opt) \<Longrightarrow>
        overwrite_pass path opt S buf w = Some (Inr (buf2, w3)) \<Longrightarrow> I buf2 (pass + 1) w3"
    and fails: "\<And>buf pass w r.
        I buf pass w \<Longrightarrow> sint pass \<le> sint (passes opt) \<Longrightarrow>
        overwrite_pass path opt S buf w = Some (Inl r) \<Longrightarrow> Q (Inl r)"
    and finish: "\<And>buf pass w.
        I buf pass w \<Longrightarrow> \<not> sint pass \<le> sint (passes opt) \<Longrightarrow> Q (Inr (buf, w))"
  shows "Q res0"
proof -
  let ?P = "\<lambda>path' opt' S' buf pass w res.
      path' = path \<and> opt' = opt \<and> S' = S \<longrightarrow> I buf pass w \<longrightarrow> Q res"
  have "?P path opt S buf0 pass0 w0 res0"
  proof (rule pass_loop.raw_induct [where P = ?P, OF _ run])
    fix f path' opt' S' buf pass w res
    assume ih: "\<And>path' opt' S' buf pass w res.
        f path' opt' S' buf pass w = Some res \<Longrightarrow> ?P path' opt' S' buf pass w res"
      and body: "(if sint pass \<le> sint (passes opt') then
                   (case overwrite_pass path' opt' S' buf w of
                      None \<Rightarrow> None
                    | Some (Inl r) \<Rightarrow> Some (Inl r)
                    | Some (Inr (buf2, w3)) \<Rightarrow> f path' opt' S' buf2 (pass + 1) w3)
                  else Some (Inr (buf, w))) = Some res"
    show "?P path' opt' S' buf pass w res"
    proof (intro impI)
      assume o: "path' = path \<and> opt' = opt \<and> S' = S" and i: "I buf pass w"
      show "Q res"
      proof (cases "sint pass \<le> sint (passes opt)")
        case False
        with body i o finish show ?thesis by auto
      next
        case True
        show ?thesis
        proof (cases "overwrite_pass path opt S buf w")
          case None
          with body True o show ?thesis by simp
        next
          case (Some y)
          show ?thesis
          proof (cases y)
            case (Inl r)
            from Some Inl have e: "overwrite_pass path opt S buf w = Some (Inl r)" by simp
            from body True o e have "res = Inl r" by simp
            with fails [OF i True e] show ?thesis by simp
          next
            case (Inr x)
            obtain buf2 w3 where x: "x = (buf2, w3)"
              by (cases x) auto
            from body True o Some Inr x have "f path opt S buf2 (pass + 1) w3 = Some res"
              by simp
            moreover have "I buf2 (pass + 1) w3"
              using step [OF i True] Some Inr x by simp
            ultimately show ?thesis
              using ih by blast
          qed
        qed
      qed
    qed
  qed
  with init show ?thesis by simp
qed

subsection \<open>What the overwrite loops do\<close>

lemma pass_writes_zero [simp]: "pass_writes q 0 b off = []"
  by (simp add: pass_writes.simps)

lemma pass_writes_step:
  "0 < remaining \<Longrightarrow> 0 < b \<Longrightarrow>
   pass_writes q remaining b off =
     (q, off, replicate (min remaining b) 0) #
     pass_writes q (remaining - min remaining b) b (off + min remaining b)"
  by (subst pass_writes.simps) (simp add: min.commute)

lemma pass_writes_bytes: "0 < b \<Longrightarrow> bytes_written (pass_writes q remaining b off) = remaining"
proof (induction q remaining b off rule: pass_writes.induct)
  case (1 q remaining b off)
  show ?case
  proof (cases "remaining = 0")
    case True
    then show ?thesis by (simp add: bytes_written_def)
  next
    case False
    with 1 show ?thesis
      by (subst pass_writes.simps) (simp add: bytes_written_def)
  qed
qed

lemma pass_writes_zero_blocks: "list_all zero_block (pass_writes q remaining b off)"
proof (induction q remaining b off rule: pass_writes.induct)
  case (1 q remaining b off)
  then show ?case
    by (subst pass_writes.simps) (simp add: zero_block_def list_all_iff)
qed

lemma overwrite_frame_random_pos [simp]: "overwrite_frame q w (w\<lparr>random_pos := n\<rparr>)"
  by (simp add: overwrite_frame_def)

lemma fill_step:
  assumes "(if pattern opt = Zeros then (fill_zeros chunk buf, w)
            else fill_random 0 chunk buf w) = (buf1, w1)" "chunk \<le> length buf"
  shows "length buf1 = length buf \<and> overwrite_frame q w w1 \<and> sink w1 = sink w \<and>
         io_count w1 = io_count w \<and> env w1 = env w \<and> nodes w1 = nodes w \<and>
         (pattern opt = Zeros \<longrightarrow> take chunk buf1 = replicate chunk 0)"
proof (cases "pattern opt = Zeros")
  case True
  with assms show ?thesis by (auto simp: fill_zeros_def)
next
  case False
  with assms have "fill_random 0 chunk buf w = (buf1, w1)" by simp
  from fill_random_effect [OF this] False show ?thesis by simp
qed

lemma write_chunk_Inr:
  assumes "write_chunk opt rem buf ofs w = Inr (rem1, buf1, ofs1, w1)"
  shows "rem1 = rem - min rem (length buf) \<and> length buf1 = length buf \<and>
         target ofs1 = target ofs \<and> \<not> failed ofs1 \<and>
         pos ofs1 = pos ofs + min rem (length buf) \<and>
         overwrite_frame (target ofs) w w1 \<and> fault_free w w1 \<and>
         (\<exists>bs. length bs = min rem (length buf) \<and>
               (pattern opt = Zeros \<longrightarrow> bs = replicate (min rem (length buf)) 0) \<and>
               sink w1 = sink w @ [(target ofs, pos ofs, bs)])"
proof -
  let ?chunk = "min rem (length buf)"
  obtain b1 v1 where f: "(if pattern opt = Zeros then (fill_zeros ?chunk buf, w)
            else fill_random 0 ?chunk buf w) = (b1, v1)"
    by fastforce
  obtain o2 v2 where wr: "ofstream_write (take ?chunk b1) ofs v1 = (o2, v2)"
    by fastforce
  from assms f wr have r: "\<not> failed o2" "rem1 = rem - ?chunk" "buf1 = b1" "ofs1 = o2" "w1 = v2"
    by (auto simp: write_chunk_def Let_def split: if_splits)
  note fs = fill_step [OF f, of "target ofs", simplified]
  note ws = ofstream_write_good [OF wr r(1)]
  have "overwrite_frame (target ofs) w v2"
    using fs ws by (blast intro: overwrite_frame_trans)
  moreover have "fault_free w v2"
    using fs ws by (auto simp: fault_free_def less_Suc_eq_le)
  moreover have "length (take ?chunk b1) = ?chunk"
    using fs by simp
  ultimately show ?thesis
    using fs ws r by auto
qed

lemma write_chunk_Inl:
  assumes "write_chunk opt rem buf ofs w = Inl (r, w1)"
  shows "\<not> ok r \<and> sink w1 = sink w \<and> nodes w1 = nodes w \<and> overwrite_frame q w w1"
proof -
  let ?chunk = "min rem (length buf)"
  obtain b1 v1 where f: "(if pattern opt = Zeros then (fill_zeros ?chunk buf, w)
            else fill_random 0 ?chunk buf w) = (b1, v1)"
    by fastforce
  obtain o2 v2 where wr: "ofstream_write (take ?chunk b1) ofs v1 = (o2, v2)"
    by fastforce
  from assms f wr have r: "failed o2" "\<not> ok r" "w1 = v2"
    by (auto simp: write_chunk_def Let_def split: if_splits)
  note fs = fill_step [OF f, of q, simplified]
  note ws = ofstream_write_bad [OF wr r(1)]
  have "overwrite_frame q v1 v2"
    using ws by (auto simp: overwrite_frame_def)
  with fs have "overwrite_frame q w v2"
    by (blast intro: overwrite_frame_trans)
  with fs ws r show ?thesis by simp
qed

lemma writes_to_refl [simp]: "writes_to q pat w w"
  by (simp add: writes_to_def)

lemma writes_to_same_sink: "sink w' = sink w \<Longrightarrow> writes_to q pat w w'"
  by (simp add: writes_to_def)

lemma writes_to_trans:
  "writes_to q pat w w1 \<Longrightarrow> writes_to q pat w1 w2 \<Longrightarrow> writes_to q pat w w2"
  by (auto simp: writes_to_def)

lemma writes_to_block:
  "sink w' = sink w @ [(q, off, bs)] \<Longrightarrow> (pat = Zeros \<longrightarrow> bs = replicate n 0) \<Longrightarrow>
   writes_to q pat w w'"
  by (auto simp: writes_to_def zero_block_def list_all_iff)

lemma write_chunks_result:
  assumes run: "write_chunks opt rem buf ofs w = Some res"
  shows "case res of
           Inl (r, w') \<Rightarrow>
             \<not> ok r \<and> overwrite_frame (target ofs) w w' \<and>
             writes_to (target ofs) (pattern opt) w w'
         | Inr (buf', ofs', w') \<Rightarrow>
             overwrite_frame (target ofs) w w' \<and> fault_free w w' \<and>
             length buf' = length buf \<and> writes_to (target ofs) (pattern opt) w w' \<and>
             (pattern opt = Zeros \<and> 0 < length buf \<longrightarrow>
                sink w' = sink w @ pass_writes (target ofs) rem (length buf) (pos ofs))"
proof -
  let ?q = "target ofs" and ?b = "length buf"
  let ?I = "\<lambda>rem' buf' ofs' w'.
      overwrite_frame ?q w w' \<and> fault_free w w' \<and> target ofs' = ?q \<and> length buf' = ?b \<and>
      writes_to ?q (pattern opt) w w' \<and>
      (pattern opt = Zeros \<and> 0 < ?b \<longrightarrow>
         sink w' @ pass_writes ?q rem' ?b (pos ofs') = sink w @ pass_writes ?q rem ?b (pos ofs))"
  show ?thesis
  proof (rule write_chunks_invariant [OF run, where I = ?I])
    show "?I rem buf ofs w" by simp
  next
    fix rem' buf' ofs' w' rem1 buf1 ofs1 w1
    assume i: "?I rem' buf' ofs' w'" and pos: "0 < rem'"
      and c: "write_chunk opt rem' buf' ofs' w' = Inr (rem1, buf1, ofs1, w1)"
    note e = write_chunk_Inr [OF c]
    from e obtain bs where bs: "length bs = min rem' (length buf')"
      "pattern opt = Zeros \<longrightarrow> bs = replicate (min rem' (length buf')) 0"
      "sink w1 = sink w' @ [(target ofs', pos ofs', bs)]"
      by blast
    have "overwrite_frame ?q w w1"
      using i e by (auto intro: overwrite_frame_trans)
    moreover have "fault_free w w1"
      using i e by (auto intro: fault_free_trans simp: overwrite_frame_def)
    moreover have "writes_to ?q (pattern opt) w w1"
      using i writes_to_block [OF bs(3) bs(2)] by (auto intro: writes_to_trans)
    moreover have "sink w1 @ pass_writes ?q rem1 ?b (pos ofs1) =
        sink w @ pass_writes ?q rem ?b (pos ofs)" if z: "pattern opt = Zeros" "0 < ?b"
    proof -
      from i have lb: "length buf' = ?b" and tq: "target ofs' = ?q"
        by simp_all
      from i z have inv: "sink w' @ pass_writes ?q rem' ?b (pos ofs') =
          sink w @ pass_writes ?q rem ?b (pos ofs)"
        by blast
      have "pass_writes ?q rem' ?b (pos ofs') =
          (?q, pos ofs', bs) # pass_writes ?q rem1 ?b (pos ofs1)"
        using pass_writes_step [OF pos z(2), of ?q "pos ofs'"] e bs z lb by simp
      with inv bs(3) tq show ?thesis by simp
    qed
    ultimately show "?I rem1 buf1 ofs1 w1"
      using i e by simp
  next
    fix rem' buf' ofs' w' r
    assume i: "?I rem' buf' ofs' w'" and c: "write_chunk opt rem' buf' ofs' w' = Inl r"
    obtain r0 w1 where r: "r = (r0, w1)" by (cases r) auto
    note e = write_chunk_Inl [OF c [unfolded r], of ?q]
    have "overwrite_frame ?q w w1"
      using i e by (auto intro: overwrite_frame_trans)
    moreover have "writes_to ?q (pattern opt) w w1"
      using i e by (auto intro: writes_to_trans writes_to_same_sink)
    ultimately show "case Inl r of
           Inl (r, w') \<Rightarrow>
             \<not> ok r \<and> overwrite_frame ?q w w' \<and> writes_to ?q (pattern opt) w w'
         | Inr (buf', ofs', w') \<Rightarrow>
             overwrite_frame ?q w w' \<and> fault_free w w' \<and>
             length buf' = ?b \<and> writes_to ?q (pattern opt) w w' \<and>
             (pattern opt = Zeros \<and> 0 < ?b \<longrightarrow>
                sink w' = sink w @ pass_writes ?q rem ?b (pos ofs))"
      using e r by simp
  next
    fix buf' ofs' w'
    assume i: "?I 0 buf' ofs' w'"
    then show "case Inr (buf', ofs', w') of
           Inl (r, w') \<Rightarrow>
             \<not> ok r \<and> overwrite_frame ?q w w' \<and> writes_to ?q (pattern opt) w w'
         | Inr (buf', ofs', w') \<Rightarrow>
             overwrite_frame ?q w w' \<and> fault_free w w' \<and>
             length buf' = ?b \<and> writes_to ?q (pattern opt) w w' \<and>
             (pattern opt = Zeros \<and> 0 < ?b \<longrightarrow>
                sink w' = sink w @ pass_writes ?q rem ?b (pos ofs))"
      by simp
  qed
qed

lemma resolve_frame: "overwrite_frame q w w' \<Longrightarrow> resolve w' p = resolve w p"
  unfolding resolve_def by (rule follow_frame [where q = q]) (simp add: overwrite_frame_def)

lemma wipe_target_frame: "overwrite_frame q w w' \<Longrightarrow> wipe_target w' p = wipe_target w p"
  by (simp add: wipe_target_def resolve_frame)

lemma overwrite_frame_regular:
  "overwrite_frame q w w' \<Longrightarrow> nodes w p = Some (Regular bs) \<Longrightarrow>
   \<exists>bs'. nodes w' p = Some (Regular bs')"
  by (cases "p = q") (auto simp: overwrite_frame_def same_shape_def dest: sym)

lemma overwrite_pass_result:
  assumes run: "overwrite_pass path opt S buf w = Some res"
  shows "case res of
           Inl (r, w') \<Rightarrow>
             \<not> ok r \<and> overwrite_frame (wipe_target w path) w w' \<and>
             writes_to (wipe_target w path) (pattern opt) w w'
         | Inr (buf', w') \<Rightarrow>
             overwrite_frame (wipe_target w path) w w' \<and> fault_free w w' \<and>
             length buf' = length buf \<and> writes_to (wipe_target w path) (pattern opt) w w' \<and>
             (pattern opt = Zeros \<and> 0 < length buf \<longrightarrow>
                sink w' = sink w @ pass_writes (wipe_target w path) S (length buf) 0)"
proof -
  let ?q = "wipe_target w path"
  obtain ofs w1 where op: "ofstream_open path w = (ofs, w1)"
    by fastforce
  note oe = ofstream_open_effect [OF op, of ?q]
  show ?thesis
  proof (cases "failed ofs")
    case True
    with run op have "res = Inl (\<lparr>ok = False,
        message = errstr ''Failed to open file for overwrite'' w1\<rparr>, w1)"
      by (simp add: overwrite_pass_def)
    with oe show ?thesis
      by (simp add: writes_to_same_sink)
  next
    case False
    with oe have tq: "target ofs = ?q"
      by (simp add: wipe_target_def)
    from run op False obtain y where wc: "write_chunks opt S buf ofs w1 = Some y"
      by (auto simp: overwrite_pass_def split: option.splits)
    note we = write_chunks_result [OF wc, unfolded tq]
    have w01: "writes_to ?q (pattern opt) w w1"
      using oe by (simp add: writes_to_same_sink)
    show ?thesis
    proof (cases y)
      case (Inl x)
      obtain r w' where x: "x = (r, w')" by (cases x) auto
      from run op False wc Inl have "res = Inl x"
        by (simp add: overwrite_pass_def)
      moreover have "overwrite_frame ?q w w'"
        using oe we Inl x by (auto intro: overwrite_frame_trans)
      moreover have "writes_to ?q (pattern opt) w w'"
        using w01 we Inl x by (auto intro: writes_to_trans)
      ultimately show ?thesis
        using we Inl x by simp
    next
      case (Inr x)
      obtain buf2 ofs2 w2 where x: "x = (buf2, ofs2, w2)" by (cases x) auto
      obtain flushed ofs3 w3 where fl: "flush_to_disk ofs2 w2 = (flushed, ofs3, w3)"
        by (cases "flush_to_disk ofs2 w2") auto
      note fe = flush_to_disk_effect [OF fl, of ?q]
      from we Inr x have w2: "overwrite_frame ?q w1 w2" "fault_free w1 w2"
        "length buf2 = length buf" "writes_to ?q (pattern opt) w1 w2"
        "pattern opt = Zeros \<and> 0 < length buf \<longrightarrow>
           sink w2 = sink w1 @ pass_writes ?q S (length buf) (pos ofs)"
        by simp_all
      have f3: "overwrite_frame ?q w w3"
        using oe w2 fe by (blast intro: overwrite_frame_trans)
      have wr3: "writes_to ?q (pattern opt) w w3"
        using w01 w2(4) fe by (blast intro: writes_to_trans writes_to_same_sink)
      show ?thesis
      proof (cases flushed)
        case False
        with run op \<open>\<not> failed ofs\<close> wc Inr x fl
        have "res = Inl (\<lparr>ok = False, message = ''Flush failed''\<rparr>, w3)"
          by (simp add: overwrite_pass_def)
        with f3 wr3 show ?thesis by simp
      next
        case True
        with run op \<open>\<not> failed ofs\<close> wc Inr x fl have res: "res = Inr (buf2, w3)"
          by (simp add: overwrite_pass_def)
        have "fault_free w w2"
          using oe False w2 by (auto intro: fault_free_trans simp: overwrite_frame_def)
        moreover have "env w2 = env w"
          using oe w2 by (simp add: overwrite_frame_def)
        ultimately have "fault_free w w3"
          using fe True by (auto intro: fault_free_trans)
        moreover have "pattern opt = Zeros \<and> 0 < length buf \<longrightarrow>
            sink w3 = sink w @ pass_writes ?q S (length buf) 0"
          using w2(5) oe fe by simp
        ultimately show ?thesis
          using res f3 wr3 w2(3) by simp
      qed
    qed
  qed
qed

lemma sint_succ:
  fixes x :: "32 word"
  assumes "sint x < 2 ^ 31 - 1"
  shows "sint (x + 1) = sint x + 1"
proof -
  have lo: "- (2 ^ 31) \<le> sint x"
    using sint_ge [of x] by simp
  have "sint (x + 1) = signed_take_bit 31 (sint x + 1)"
    by (simp add: sint_word_ariths)
  also have "\<dots> = sint x + 1"
    using lo assms by (intro signed_take_bit_int_eq_self) simp_all
  finally show ?thesis .
qed

lemma sint_max:
  fixes x :: "32 word"
  shows "sint x \<le> 2 ^ 31 - 1"
  using sint_lt [of x] by simp

lemma concat_replicate_snoc: "concat (replicate n xs) @ xs = concat (replicate (Suc n) xs)"
  by (induction n) simp_all

lemma pass_loop_result:
  assumes run: "pass_loop path opt S buf pass w = Some res"
    and start: "sint pass \<le> sint (passes opt) + 1"
  shows "case res of
           Inl (r, w') \<Rightarrow>
             \<not> ok r \<and> overwrite_frame (wipe_target w path) w w' \<and>
             writes_to (wipe_target w path) (pattern opt) w w'
         | Inr (buf', w') \<Rightarrow>
             overwrite_frame (wipe_target w path) w w' \<and> fault_free w w' \<and>
             writes_to (wipe_target w path) (pattern opt) w w' \<and>
             sint (passes opt) < 2 ^ 31 - 1 \<and>
             (pattern opt = Zeros \<and> 0 < length buf \<longrightarrow>
                sink w' = sink w @
                  concat (replicate (nat (sint (passes opt) + 1 - sint pass))
                            (pass_writes (wipe_target w path) S (length buf) 0)))"
proof -
  let ?q = "wipe_target w path" and ?b = "length buf" and ?n = "sint (passes opt)"
  let ?I = "\<lambda>buf' pass' w'.
      overwrite_frame ?q w w' \<and> fault_free w w' \<and> writes_to ?q (pattern opt) w w' \<and>
      length buf' = ?b \<and>
      (?n < 2 ^ 31 - 1 \<longrightarrow>
         sint pass \<le> sint pass' \<and> sint pass' \<le> ?n + 1 \<and>
         (pattern opt = Zeros \<and> 0 < ?b \<longrightarrow>
            sink w' = sink w @
              concat (replicate (nat (sint pass' - sint pass)) (pass_writes ?q S ?b 0))))"
  show ?thesis
  proof (rule pass_loop_invariant [OF run, where I = ?I])
    show "?I buf pass w"
      using start by simp
  next
    fix buf' and pass' :: "32 word" and w' buf2 w3
    assume i: "?I buf' pass' w'" and le: "sint pass' \<le> ?n"
      and p: "overwrite_pass path opt S buf' w' = Some (Inr (buf2, w3))"
    from i have f: "overwrite_frame ?q w w'" and lb: "length buf' = ?b"
      by simp_all
    have tq: "wipe_target w' path = ?q"
      using f by (rule wipe_target_frame)
    note e = overwrite_pass_result [OF p, unfolded tq, simplified]
    have "overwrite_frame ?q w w3"
      using f e by (blast intro: overwrite_frame_trans)
    moreover have "fault_free w w3"
      using i e by (auto intro: fault_free_trans simp: overwrite_frame_def)
    moreover have "writes_to ?q (pattern opt) w w3"
      using i e by (blast intro: writes_to_trans)
    moreover have "length buf2 = ?b"
      using e lb by simp
    moreover have "sint pass \<le> sint (pass' + 1) \<and> sint (pass' + 1) \<le> ?n + 1 \<and>
         (pattern opt = Zeros \<and> 0 < ?b \<longrightarrow>
            sink w3 = sink w @
              concat (replicate (nat (sint (pass' + 1) - sint pass)) (pass_writes ?q S ?b 0)))"
      if small: "?n < 2 ^ 31 - 1"
    proof -
      have "sint pass' < 2 ^ 31 - 1"
        using le small by simp
      then have s: "sint (pass' + 1) = sint pass' + 1"
        by (rule sint_succ)
      from i small have ge: "sint pass \<le> sint pass'"
        by simp
      have n: "nat (sint pass' + 1 - sint pass) = Suc (nat (sint pass' - sint pass))"
        using ge by simp
      have "sink w3 = sink w @
          concat (replicate (nat (sint (pass' + 1) - sint pass)) (pass_writes ?q S ?b 0))"
        if z: "pattern opt = Zeros \<and> 0 < ?b"
      proof -
        from i small z have "sink w' = sink w @
            concat (replicate (nat (sint pass' - sint pass)) (pass_writes ?q S ?b 0))"
          by blast
        moreover from z lb have "buf' \<noteq> []"
          by auto
        with e z lb have "sink w3 = sink w' @ pass_writes ?q S ?b 0"
          by simp
        ultimately show ?thesis
          by (simp add: s n concat_replicate_snoc del: replicate.simps)
      qed
      with s ge le show ?thesis by simp
    qed
    ultimately show "?I buf2 (pass' + 1) w3"
      by blast
  next
    fix buf' and pass' :: "32 word" and w' r
    assume i: "?I buf' pass' w'"
      and p: "overwrite_pass path opt S buf' w' = Some (Inl r)"
    obtain r0 w1 where r: "r = (r0, w1)" by (cases r) auto
    from i have f: "overwrite_frame ?q w w'"
      by simp
    have tq: "wipe_target w' path = ?q"
      using f by (rule wipe_target_frame)
    note e = overwrite_pass_result [OF p, unfolded tq r, simplified]
    have "overwrite_frame ?q w w1"
      using f e by (blast intro: overwrite_frame_trans)
    moreover have "writes_to ?q (pattern opt) w w1"
      using i e by (blast intro: writes_to_trans)
    ultimately show "case Inl r of
           Inl (r, w') \<Rightarrow>
             \<not> ok r \<and> overwrite_frame ?q w w' \<and> writes_to ?q (pattern opt) w w'
         | Inr (buf', w') \<Rightarrow>
             overwrite_frame ?q w w' \<and> fault_free w w' \<and>
             writes_to ?q (pattern opt) w w' \<and> ?n < 2 ^ 31 - 1 \<and>
             (pattern opt = Zeros \<and> 0 < ?b \<longrightarrow>
                sink w' = sink w @
                  concat (replicate (nat (?n + 1 - sint pass)) (pass_writes ?q S ?b 0)))"
      using e r by simp
  next
    fix buf' and pass' :: "32 word" and w'
    assume i: "?I buf' pass' w'" and gt: "\<not> sint pass' \<le> ?n"
    have small: "?n < 2 ^ 31 - 1"
      using gt sint_max [of pass'] by simp
    with i gt have "sint pass' = ?n + 1"
      by simp
    with i small show "case Inr (buf', w') of
           Inl (r, w') \<Rightarrow>
             \<not> ok r \<and> overwrite_frame ?q w w' \<and> writes_to ?q (pattern opt) w w'
         | Inr (buf', w') \<Rightarrow>
             overwrite_frame ?q w w' \<and> fault_free w w' \<and>
             writes_to ?q (pattern opt) w w' \<and> ?n < 2 ^ 31 - 1 \<and>
             (pattern opt = Zeros \<and> 0 < ?b \<longrightarrow>
                sink w' = sink w @
                  concat (replicate (nat (?n + 1 - sint pass)) (pass_writes ?q S ?b 0)))"
      by simp
  qed
qed

subsection \<open>Success and failure of \<open>wipe_file\<close>\<close>

lemma resolve_step:
  "resolve w p =
     (case stat_err (env w) p of
        Some e \<Rightarrow> (Some e, None)
      | None \<Rightarrow> (case nodes w p of
                   None \<Rightarrow> (None, None)
                 | Some (Symlink t) \<Rightarrow> follow 40 w t
                 | Some _ \<Rightarrow> (None, Some p)))"
  by (simp only: resolve_def follow.simps)

lemma fs_remove_effect:
  assumes "fs_remove p w = (removed, ec, w')"
  shows "env w' = env w \<and> cout w' = cout w \<and> cerr w' = cerr w \<and> sink w' = sink w \<and>
         io_count w' = Suc (io_count w) \<and> (\<forall>q. q \<noteq> p \<longrightarrow> nodes w' q = nodes w q) \<and>
         (if removed \<and> ec = None
          then nodes w' p = None \<and> nodes w p \<noteq> None \<and> io_fault (env w) (io_count w) = None
          else nodes w' = nodes w)"
  using assms
  by (auto simp: fs_remove_def next_fault_def split: option.splits if_splits)

lemma wipe_file_unfold:
  assumes "checks_pass w path opt"
  shows "wipe_file path opt w =
     (case overwrite_passes path opt w of
        None \<Rightarrow> None
      | Some (Inl r) \<Rightarrow> Some r
      | Some (Inr (buf, w1)) \<Rightarrow>
          (case fs_remove path w1 of (removed, ec2, w2) \<Rightarrow>
             if \<not> removed \<or> ec2 \<noteq> None then
               Some (\<lparr>ok = False,
                      message = ''Failed to delete file: '' @
                        (if ec2 \<noteq> None then ec_message w2 ec2 else ''unknown error'')\<rparr>, w2)
             else Some (\<lparr>ok = True, message = ''Wiped and deleted successfully''\<rparr>, w2)))"
  using assms
  by (auto simp: wipe_file_def checks_pass_def overwrite_passes_def split: prod.splits)

lemma wipe_file_rejects:
  assumes "\<not> checks_pass w path opt"
  shows "\<exists>r. wipe_file path opt w = Some (r, w) \<and> \<not> ok r"
  using assms
  by (auto simp: wipe_file_def checks_pass_def split: prod.splits)

lemma sint_one_32 [simp]: "sint (1 :: 32 word) = 1"
  by simp

lemma overwrite_passes_result:
  assumes run: "overwrite_passes path opt w = Some res" and pos: "0 < sint (passes opt)"
  shows "case res of
           Inl (r, w') \<Rightarrow>
             \<not> ok r \<and> overwrite_frame (wipe_target w path) w w' \<and>
             writes_to (wipe_target w path) (pattern opt) w w'
         | Inr (buf', w') \<Rightarrow>
             overwrite_frame (wipe_target w path) w w' \<and> fault_free w w' \<and>
             writes_to (wipe_target w path) (pattern opt) w w' \<and>
             sint (passes opt) < 2 ^ 31 - 1 \<and>
             (pattern opt = Zeros \<and> 0 < block_size opt \<longrightarrow>
                sink w' = sink w @
                  concat (replicate (nat (sint (passes opt)))
                            (pass_writes (wipe_target w path) (fst (fs_file_size w path))
                               (block_size opt) 0)))"
proof -
  have "sint (1 :: 32 word) \<le> sint (passes opt) + 1"
    using pos by simp
  from pass_loop_result [OF run [unfolded overwrite_passes_def] this]
  show ?thesis by (cases res) auto
qed

lemma not_exists_after_remove: "nodes w p = None \<Longrightarrow> \<not> fst (fs_exists w p)"
  by (simp add: fs_exists_def fs_status_def resolve_step split: option.splits)

text \<open>
  C1. For every path, options and machine: if \<open>wipe_file\<close> returns \<open>ok = True\<close>, then the
  message is exactly "Wiped and deleted successfully", the overwrite passes ran to
  their end, the final \<^verbatim>\<open>remove\<close> succeeded, no operation of the run met a failure,
  and the path names nothing afterwards. If the checks and the passes succeed and the
  deletion does not, the result has \<open>ok = False\<close> and a message that begins with
  "Failed to delete file: ".
\<close>
theorem wipe_file_success_and_delete_failure:
  "(wipe_file path opt w = Some (r, w') \<and> ok r \<longrightarrow>
      message r = ''Wiped and deleted successfully'' \<and>
      nodes w' path = None \<and> \<not> fst (fs_exists w' path) \<and> fault_free w w' \<and>
      (\<exists>buf w1. overwrite_passes path opt w = Some (Inr (buf, w1)) \<and>
                 fs_remove path w1 = (True, None, w'))) \<and>
   (checks_pass w path opt \<and> overwrite_passes path opt w = Some (Inr (buf, w1)) \<and>
    \<not> (fst (fs_remove path w1) \<and> fst (snd (fs_remove path w1)) = None) \<longrightarrow>
      (\<exists>rest. wipe_file path opt w =
         Some (\<lparr>ok = False, message = ''Failed to delete file: '' @ rest\<rparr>,
               snd (snd (fs_remove path w1)))))"
proof (intro conjI impI)
  assume a: "wipe_file path opt w = Some (r, w') \<and> ok r"
  then have c: "checks_pass w path opt"
    using wipe_file_rejects [of w path opt] by auto
  note u = wipe_file_unfold [OF c]
  from a u obtain res where o: "overwrite_passes path opt w = Some res"
    by (auto split: option.splits)
  from c have pos: "0 < sint (passes opt)"
    by (simp add: checks_pass_def)
  note pr = overwrite_passes_result [OF o pos]
  from a u o pr obtain b1 v1 where res: "res = Inr (b1, v1)"
    by (cases res) auto
  obtain removed ec w2 where rm: "fs_remove path v1 = (removed, ec, w2)"
    by (cases "fs_remove path v1") auto
  from a u o res rm have ok: "removed" "ec = None" "w2 = w'"
    and msg: "message r = ''Wiped and deleted successfully''"
    by (auto split: if_splits)
  note re = fs_remove_effect [OF rm]
  from re ok have gone: "nodes w' path = None"
    by simp
  have "fault_free v1 w'"
    using re ok by (auto simp: fault_free_def less_Suc_eq_le)
  moreover have "fault_free w v1" "env v1 = env w"
    using pr res by (simp_all add: overwrite_frame_def)
  ultimately have ff: "fault_free w w'"
    by (blast intro: fault_free_trans)
  show "message r = ''Wiped and deleted successfully''"
    by (rule msg)
  show "nodes w' path = None"
    by (rule gone)
  show "\<not> fst (fs_exists w' path)"
    using gone by (rule not_exists_after_remove)
  show "fault_free w w'"
    by (rule ff)
  show "\<exists>buf w1. overwrite_passes path opt w = Some (Inr (buf, w1)) \<and>
                 fs_remove path w1 = (True, None, w')"
    using o res rm ok by auto
next
  assume a: "checks_pass w path opt \<and> overwrite_passes path opt w = Some (Inr (buf, w1)) \<and>
    \<not> (fst (fs_remove path w1) \<and> fst (snd (fs_remove path w1)) = None)"
  then show "\<exists>rest. wipe_file path opt w =
         Some (\<lparr>ok = False, message = ''Failed to delete file: '' @ rest\<rparr>,
               snd (snd (fs_remove path w1)))"
    by (cases "fs_remove path w1") (auto simp: wipe_file_unfold)
qed

theorem wipe_file_success_and_delete_failure_witness:
  "(\<exists>r w'. wipe_file ''/t/a'' example_options example_world = Some (r, w') \<and> ok r \<and>
            message r = ''Wiped and deleted successfully'' \<and> nodes w' ''/t/a'' = None \<and>
            \<not> fst (fs_exists w' ''/t/a'') \<and> fault_free example_world w') \<and>
   (\<exists>rest w2. wipe_file ''/t/sub/b'' example_options faulty_world =
      Some (\<lparr>ok = False, message = ''Failed to delete file: '' @ rest\<rparr>, w2))"
proof (rule conjI)
  have "case wipe_file ''/t/a'' example_options example_world of
          Some (r, w') \<Rightarrow> ok r | None \<Rightarrow> False"
    by code_simp
  then obtain r w' where
    h: "wipe_file ''/t/a'' example_options example_world = Some (r, w') \<and> ok r"
    by (auto split: option.splits)
  with wipe_file_success_and_delete_failure
    [where path = "''/t/a''" and opt = example_options and w = example_world
       and r = r and w' = w']
  show "\<exists>r w'. wipe_file ''/t/a'' example_options example_world = Some (r, w') \<and> ok r \<and>
            message r = ''Wiped and deleted successfully'' \<and> nodes w' ''/t/a'' = None \<and>
            \<not> fst (fs_exists w' ''/t/a'') \<and> fault_free example_world w'"
    by blast
next
  have c: "checks_pass faulty_world ''/t/sub/b'' example_options"
    by code_simp
  have "case overwrite_passes ''/t/sub/b'' example_options faulty_world of
          Some (Inr (buf, w1)) \<Rightarrow>
            io_count w1 = 6 \<and> nodes w1 ''/t/sub/b'' \<noteq> None \<and> io_fault (env w1) 6 = Some 5
        | _ \<Rightarrow> False"
    by code_simp
  then obtain buf w1 where
    o: "overwrite_passes ''/t/sub/b'' example_options faulty_world = Some (Inr (buf, w1))"
    and w1: "io_count w1 = 6" "nodes w1 ''/t/sub/b'' \<noteq> None" "io_fault (env w1) 6 = Some 5"
    by (auto split: option.splits sum.splits)
  from w1 have "\<not> (fst (fs_remove ''/t/sub/b'' w1) \<and> fst (snd (fs_remove ''/t/sub/b'' w1)) = None)"
    by (auto simp: fs_remove_def next_fault_def)
  with c o wipe_file_success_and_delete_failure
    [where path = "''/t/sub/b''" and opt = example_options and w = faulty_world
       and buf = buf and ?w1.0 = w1]
  show "\<exists>rest w2. wipe_file ''/t/sub/b'' example_options faulty_world =
      Some (\<lparr>ok = False, message = ''Failed to delete file: '' @ rest\<rparr>, w2)"
    by blast
qed

subsection \<open>The blocks written with the pattern \<open>Zeros\<close>\<close>

lemma new_writes_append: "sink w' = sink w @ xs \<Longrightarrow> new_writes w w' = xs"
  by (simp add: new_writes_def)

lemma writes_to_new_writes:
  assumes "writes_to q pat w w'"
  shows "list_all (\<lambda>e. fst e = q) (new_writes w w') \<and>
         (pat = Zeros \<longrightarrow> list_all zero_block (new_writes w w'))"
  using assms by (auto simp: writes_to_def new_writes_def list_all_iff)

lemma pass_writes_sizes:
  "0 < b \<Longrightarrow>
   map (\<lambda>(q, off, bs). length bs) (pass_writes q remaining b off) =
     replicate (remaining div b) b @ (if remaining mod b = 0 then [] else [remaining mod b])"
proof (induction q remaining b off rule: pass_writes.induct)
  case (1 q remaining b off)
  show ?case
  proof (cases "remaining = 0")
    case True
    then show ?thesis by simp
  next
    case False
    show ?thesis
    proof (cases "b \<le> remaining")
      case True
      then have d: "remaining div b = Suc ((remaining - b) div b)"
        and m: "(remaining - b) mod b = remaining mod b"
        using "1.prems" by (simp_all add: le_div_geq le_mod_geq)
      from True have mn: "min b remaining = b" by simp
      show ?thesis
        using "1.IH" "1.prems" False
        by (subst pass_writes.simps) (simp add: mn d m)
    next
      case False
      then have lt: "remaining < b" by simp
      then have mn: "min b remaining = remaining" by simp
      show ?thesis
        using lt \<open>remaining \<noteq> 0\<close> "1.prems"
        by (subst pass_writes.simps) (simp add: mn)
    qed
  qed
qed

text \<open>
  C3. For a file that passes the checks of \<open>wipe_file\<close>, with \<open>pattern = Zeros\<close> and
  \<open>block_size \<ge> 1\<close>: every block \<open>wipe_file\<close> writes goes to the file and holds only
  bytes 0x00, whether the run succeeds or not. When the passes run to their end (as
  they have when \<open>ok = True\<close>), the blocks written are, \<open>passes\<close> times over, the
  successive chunks of size \<open>min block_size remaining\<close> from offset 0: \<open>S div block_size\<close>
  full blocks and, if \<open>block_size\<close> does not divide the file size \<open>S\<close>, a last block of
  \<open>S mod block_size\<close> bytes, \<open>S\<close> bytes in each pass.
\<close>
theorem zeros_pattern_writes:
  "checks_pass w path opt \<and> pattern opt = Zeros \<and> 0 < block_size opt \<and>
   wipe_file path opt w = Some (r, w') \<longrightarrow>
     list_all zero_block (new_writes w w') \<and>
     list_all (\<lambda>e. fst e = wipe_target w path) (new_writes w w') \<and>
     (ok r \<or> (\<exists>buf w1. overwrite_passes path opt w = Some (Inr (buf, w1))) \<longrightarrow>
        new_writes w w' =
          concat (replicate (nat (sint (passes opt)))
                    (pass_writes (wipe_target w path) (fst (fs_file_size w path))
                       (block_size opt) 0))) \<and>
     bytes_written (pass_writes (wipe_target w path) (fst (fs_file_size w path))
                      (block_size opt) 0) = fst (fs_file_size w path) \<and>
     map (\<lambda>(q, off, bs). length bs)
         (pass_writes (wipe_target w path) (fst (fs_file_size w path)) (block_size opt) 0) =
       replicate (fst (fs_file_size w path) div block_size opt) (block_size opt) @
       (if fst (fs_file_size w path) mod block_size opt = 0 then []
        else [fst (fs_file_size w path) mod block_size opt])"
proof
  let ?q = "wipe_target w path" and ?S = "fst (fs_file_size w path)"
  let ?all = "concat (replicate (nat (sint (passes opt)))
                (pass_writes ?q ?S (block_size opt) 0))"
  assume a: "checks_pass w path opt \<and> pattern opt = Zeros \<and> 0 < block_size opt \<and>
   wipe_file path opt w = Some (r, w')"
  then have c: "checks_pass w path opt" and z: "pattern opt = Zeros" "0 < block_size opt"
    and run: "wipe_file path opt w = Some (r, w')"
    by simp_all
  note u = wipe_file_unfold [OF c]
  from run u obtain res where o: "overwrite_passes path opt w = Some res"
    by (auto split: option.splits)
  from c have pos: "0 < sint (passes opt)"
    by (simp add: checks_pass_def)
  note pr = overwrite_passes_result [OF o pos]
  have main: "writes_to ?q Zeros w w' \<and>
      (ok r \<or> (\<exists>buf w1. overwrite_passes path opt w = Some (Inr (buf, w1))) \<longrightarrow>
         new_writes w w' = ?all)"
  proof (cases res)
    case (Inl x)
    obtain r0 v where x: "x = (r0, v)" by (cases x) auto
    from run u o Inl x have "r = r0" "w' = v"
      by simp_all
    with pr Inl x o z show ?thesis
      by simp
  next
    case (Inr x)
    obtain b1 v1 where x: "x = (b1, v1)" by (cases x) auto
    obtain removed ec w2 where rm: "fs_remove path v1 = (removed, ec, w2)"
      by (cases "fs_remove path v1") auto
    from run u o Inr x rm have w2: "w' = w2"
      by (auto split: if_splits)
    note re = fs_remove_effect [OF rm]
    from pr Inr x z have "writes_to ?q Zeros w v1" "sink v1 = sink w @ ?all"
      by simp_all
    with re w2 show ?thesis
      by (auto simp: writes_to_def new_writes_def)
  qed
  show "list_all zero_block (new_writes w w') \<and>
     list_all (\<lambda>e. fst e = ?q) (new_writes w w') \<and>
     (ok r \<or> (\<exists>buf w1. overwrite_passes path opt w = Some (Inr (buf, w1))) \<longrightarrow>
        new_writes w w' = ?all) \<and>
     bytes_written (pass_writes ?q ?S (block_size opt) 0) = ?S \<and>
     map (\<lambda>(q, off, bs). length bs) (pass_writes ?q ?S (block_size opt) 0) =
       replicate (?S div block_size opt) (block_size opt) @
       (if ?S mod block_size opt = 0 then [] else [?S mod block_size opt])"
    using main writes_to_new_writes [of ?q Zeros w w'] pass_writes_bytes [OF z(2)]
      pass_writes_sizes [OF z(2)]
    by blast
qed

theorem zeros_pattern_writes_witness:
  "\<exists>r w'. wipe_file ''/t/a'' example_options example_world = Some (r, w') \<and> ok r \<and>
     list_all zero_block (new_writes example_world w') \<and>
     new_writes example_world w' =
       [(''/t/a'', 0, [0, 0]), (''/t/a'', 2, [0, 0]), (''/t/a'', 4, [0]),
        (''/t/a'', 0, [0, 0]), (''/t/a'', 2, [0, 0]), (''/t/a'', 4, [0])]"
proof -
  have c: "checks_pass example_world ''/t/a'' example_options \<and>
           pattern example_options = Zeros \<and> 0 < block_size example_options"
    by code_simp
  have "case wipe_file ''/t/a'' example_options example_world of
          Some (r, w') \<Rightarrow> ok r | None \<Rightarrow> False"
    by code_simp
  then obtain r w' where
    h: "wipe_file ''/t/a'' example_options example_world = Some (r, w')" "ok r"
    by (auto split: option.splits)
  have v: "concat (replicate (nat (sint (passes example_options)))
             (pass_writes (wipe_target example_world ''/t/a'')
                (fst (fs_file_size example_world ''/t/a'')) (block_size example_options) 0)) =
       [(''/t/a'', 0, [0, 0]), (''/t/a'', 2, [0, 0]), (''/t/a'', 4, [0]),
        (''/t/a'', 0, [0, 0]), (''/t/a'', 2, [0, 0]), (''/t/a'', 4, [0])]"
    by code_simp
  from c h zeros_pattern_writes
    [where path = "''/t/a''" and opt = example_options and w = example_world
       and r = r and w' = w']
  have "list_all zero_block (new_writes example_world w') \<and>
        new_writes example_world w' =
          concat (replicate (nat (sint (passes example_options)))
             (pass_writes (wipe_target example_world ''/t/a'')
                (fst (fs_file_size example_world ''/t/a'')) (block_size example_options) 0))"
    by blast
  with h v show ?thesis
    by auto
qed

subsection \<open>Termination of the chunk loop\<close>

lemma write_chunks_terminates:
  "0 < length buf \<Longrightarrow> \<exists>res. write_chunks opt rem buf ofs w = Some res"
proof (induction rem arbitrary: buf ofs w rule: less_induct)
  case (less rem)
  show ?case
  proof (cases "0 < rem")
    case False
    then show ?thesis
      by (subst write_chunks.simps) simp
  next
    case True
    show ?thesis
    proof (cases "write_chunk opt rem buf ofs w")
      case (Inl r)
      with True show ?thesis
        by (subst write_chunks.simps) simp
    next
      case (Inr x)
      obtain rem1 buf1 ofs1 w1 where x: "x = (rem1, buf1, ofs1, w1)"
        by (cases x) auto
      note e = write_chunk_Inr [OF Inr [unfolded x]]
      from e True less.prems have "rem1 < rem" "0 < length buf1"
        by simp_all
      from less.IH [OF this] obtain res where "write_chunks opt rem1 buf1 ofs1 w1 = Some res"
        by blast
      with True Inr x show ?thesis
        by (subst write_chunks.simps) simp
    qed
  qed
qed

lemma overwrite_pass_terminates:
  assumes "0 < length buf"
  shows "\<exists>res. overwrite_pass path opt S buf w = Some res"
proof -
  obtain ofs w1 where op: "ofstream_open path w = (ofs, w1)"
    by fastforce
  from write_chunks_terminates [OF assms] obtain y
    where "write_chunks opt S buf ofs w1 = Some y"
    by blast
  with op show ?thesis
    by (auto simp: overwrite_pass_def split: sum.splits prod.splits)
qed

lemma pass_loop_terminates:
  assumes "sint (passes opt) < 2 ^ 31 - 1"
  shows "0 < length buf \<Longrightarrow> \<exists>res. pass_loop path opt S buf pass w = Some res"
proof (induction "nat (sint (passes opt) + 1 - sint pass)" arbitrary: buf pass w rule: less_induct)
  case less
  show ?case
  proof (cases "sint pass \<le> sint (passes opt)")
    case False
    then show ?thesis
      by (subst pass_loop.simps) simp
  next
    case True
    from overwrite_pass_terminates [OF less.prems] obtain y
      where y: "overwrite_pass path opt S buf w = Some y"
      by blast
    show ?thesis
    proof (cases y)
      case (Inl r)
      with True y show ?thesis
        by (subst pass_loop.simps) simp
    next
      case (Inr x)
      obtain buf2 w3 where x: "x = (buf2, w3)"
        by (cases x) auto
      from overwrite_pass_result [OF y] Inr x less.prems have l: "0 < length buf2"
        by simp
      have "sint pass < 2 ^ 31 - 1"
        using True assms by simp
      then have "sint (pass + 1) = sint pass + 1"
        by (rule sint_succ)
      with True have "nat (sint (passes opt) + 1 - sint (pass + 1)) <
          nat (sint (passes opt) + 1 - sint pass)"
        by simp
      from less.hyps [OF this l] obtain res
        where "pass_loop path opt S buf2 (pass + 1) w3 = Some res"
        by blast
      with True y Inr x show ?thesis
        by (subst pass_loop.simps) simp
    qed
  qed
qed

lemma wipe_file_terminates:
  assumes "0 < block_size opt" "sint (passes opt) < 2 ^ 31 - 1"
  shows "\<exists>res. wipe_file path opt w = Some res"
proof (cases "checks_pass w path opt")
  case False
  from wipe_file_rejects [OF this] show ?thesis by blast
next
  case True
  from assms pass_loop_terminates [OF assms(2), of "replicate (block_size opt) 0" path
      "fst (fs_file_size w path)" 1 w]
  obtain res where "overwrite_passes path opt w = Some res"
    by (auto simp: overwrite_passes_def)
  then show ?thesis
    by (auto simp: wipe_file_unfold [OF True] split: sum.splits prod.splits)
qed

lemma write_chunk_empty_buffer:
  assumes "length buf = 0" "\<not> failed ofs" "nodes w (target ofs) = Some (Regular old)"
    "io_fault (env w) (io_count w) = None"
  shows "\<exists>buf1 ofs1 w1. write_chunk opt rem buf ofs w = Inr (rem, buf1, ofs1, w1)"
proof -
  obtain b1 v1 where f: "(if pattern opt = Zeros then (fill_zeros 0 buf, w)
            else fill_random 0 0 buf w) = (b1, v1)"
    by fastforce
  note fs = fill_step [OF f, of "target ofs", simplified]
  from fs assms have "\<not> failed (fst (ofstream_write (take 0 b1) ofs v1))"
    by (intro ofstream_write_regular [where old = old]) simp_all
  with f assms(1) show ?thesis
    by (auto simp: write_chunk_def split: prod.splits if_splits)
qed

lemma write_chunks_diverges:
  assumes e: "length buf = 0" and r: "0 < rem" and g: "\<not> failed ofs"
    and t: "nodes w (target ofs) = Some (Regular old)"
    and nf: "\<forall>n\<ge>io_count w. io_fault (env w) n = None"
  shows "write_chunks opt rem buf ofs w = None"
proof (rule ccontr)
  assume "write_chunks opt rem buf ofs w \<noteq> None"
  then obtain res where run: "write_chunks opt rem buf ofs w = Some res"
    by auto
  let ?I = "\<lambda>rem' buf' ofs' w'. rem' = rem \<and> length buf' = 0 \<and> \<not> failed ofs' \<and>
      target ofs' = target ofs \<and> overwrite_frame (target ofs) w w'"
  have "(\<lambda>res. False) res"
  proof (rule write_chunks_invariant [OF run, where I = ?I])
    show "?I rem buf ofs w" using e g by simp
  next
    fix rem' buf' ofs' w' rem1 buf1 ofs1 w1
    assume i: "?I rem' buf' ofs' w'" and "0 < rem'"
      and c: "write_chunk opt rem' buf' ofs' w' = Inr (rem1, buf1, ofs1, w1)"
    note ce = write_chunk_Inr [OF c]
    have "overwrite_frame (target ofs) w w1"
      using i ce by (auto intro: overwrite_frame_trans)
    with i ce show "?I rem1 buf1 ofs1 w1" by simp
  next
    fix rem' buf' ofs' w' x
    assume i: "?I rem' buf' ofs' w'" and c: "write_chunk opt rem' buf' ofs' w' = Inl x"
    from i t obtain old' where "nodes w' (target ofs') = Some (Regular old')"
      using overwrite_frame_regular [of "target ofs" w w' "target ofs" old] by auto
    moreover have "io_fault (env w') (io_count w') = None"
      using i nf by (simp add: overwrite_frame_def)
    ultimately obtain buf1 ofs1 w1
      where "write_chunk opt rem' buf' ofs' w' = Inr (rem', buf1, ofs1, w1)"
      using write_chunk_empty_buffer [of buf' ofs' w' old' opt rem'] i by auto
    with c show False by simp
  next
    fix buf' ofs' w'
    assume "?I 0 buf' ofs' w'"
    with r show False by simp
  qed
  then show False .
qed

lemma type_of_node_regular: "type_of_node n = ft_regular \<longleftrightarrow> (\<exists>bs. n = Regular bs)"
  by (cases n) auto

lemma regular_file_resolves:
  assumes "fst (fs_is_regular_file w path)"
  shows "\<exists>q bs. resolve w path = (None, Some q) \<and> nodes w q = Some (Regular bs)"
  using assms
  by (auto simp: fs_is_regular_file_def fs_status_def type_of_node_regular
           split: prod.splits option.splits)

lemma wipe_file_diverges:
  assumes z: "block_size opt = 0" and c: "checks_pass w path opt"
    and s: "0 < fst (fs_file_size w path)"
    and nf: "\<forall>n\<ge>io_count w. io_fault (env w) n = None"
  shows "wipe_file path opt w = None"
proof -
  from c obtain q bs where q: "resolve w path = (None, Some q)" "nodes w q = Some (Regular bs)"
    using regular_file_resolves [of w path] by (auto simp: checks_pass_def)
  let ?w1 = "w\<lparr>io_count := Suc (io_count w)\<rparr>"
  let ?ofs = "\<lparr>target = q, pos = 0, failed = False\<rparr>"
  have op: "ofstream_open path w = (?ofs, ?w1)"
    using q nf by (simp add: ofstream_open_def next_fault_def resolve_def)
  have "write_chunks opt (fst (fs_file_size w path)) (replicate (block_size opt) 0) ?ofs ?w1 = None"
    using z s q nf by (intro write_chunks_diverges [where old = bs]) simp_all
  with op have "overwrite_pass path opt (fst (fs_file_size w path))
      (replicate (block_size opt) 0) w = None"
    by (simp add: overwrite_pass_def)
  moreover from c have "sint (1 :: 32 word) \<le> sint (passes opt)"
    by (simp add: checks_pass_def)
  ultimately have "overwrite_passes path opt w = None"
    unfolding overwrite_passes_def by (subst pass_loop.simps) simp
  then show ?thesis
    by (simp add: wipe_file_unfold [OF c])
qed

text \<open>
  C10. \<open>wipe_file\<close> does not check \<open>block_size\<close>. With a buffer of at least one byte the
  chunk loop returns, for every pattern and every behaviour of the operating system:
  a chunk that is written takes \<open>min (length buf) remaining \<ge> 1\<close> bytes off \<open>remaining\<close>.
  With \<open>block_size \<ge> 1\<close> (and \<open>passes\<close> below the largest \<^verbatim>\<open>int\<close>, where the increment
  of the pass counter overflows) \<open>wipe_file\<close> returns. With \<open>block_size = 0\<close>, a file
  that passes the checks and is not empty, and an operating system that does not
  fail, \<open>wipe_file\<close> does not return: every chunk has size 0.
\<close>
theorem chunk_loop_termination:
  "(0 < length buf \<longrightarrow> (\<exists>res. write_chunks opt remaining buf ofs w = Some res)) \<and>
   (0 < length buf \<and> 0 < remaining \<and>
    write_chunk opt remaining buf ofs w = Inr (remaining1, buf1, ofs1, w1) \<longrightarrow>
      remaining1 = remaining - min remaining (length buf) \<and> remaining1 < remaining \<and>
      length buf1 = length buf) \<and>
   (0 < block_size opt \<and> sint (passes opt) < 2 ^ 31 - 1 \<longrightarrow>
      (\<exists>res. wipe_file path opt w = Some res)) \<and>
   (block_size opt = 0 \<and> checks_pass w path opt \<and> 0 < fst (fs_file_size w path) \<and>
    (\<forall>n\<ge>io_count w. io_fault (env w) n = None) \<longrightarrow>
      wipe_file path opt w = None)"
proof (intro conjI impI)
  assume "0 < length buf"
  then show "\<exists>res. write_chunks opt remaining buf ofs w = Some res"
    by (rule write_chunks_terminates)
next
  assume a: "0 < length buf \<and> 0 < remaining \<and>
    write_chunk opt remaining buf ofs w = Inr (remaining1, buf1, ofs1, w1)"
  then have c: "write_chunk opt remaining buf ofs w = Inr (remaining1, buf1, ofs1, w1)"
    by simp
  from write_chunk_Inr [OF c] a
  show "remaining1 = remaining - min remaining (length buf)"
    and "remaining1 < remaining" and "length buf1 = length buf"
    by simp_all
next
  assume "0 < block_size opt \<and> sint (passes opt) < 2 ^ 31 - 1"
  then have "0 < block_size opt" and "sint (passes opt) < 2 ^ 31 - 1"
    by simp_all
  then show "\<exists>res. wipe_file path opt w = Some res"
    by (rule wipe_file_terminates)
next
  assume "block_size opt = 0 \<and> checks_pass w path opt \<and> 0 < fst (fs_file_size w path) \<and>
    (\<forall>n\<ge>io_count w. io_fault (env w) n = None)"
  then show "wipe_file path opt w = None"
    by (simp add: wipe_file_diverges)
qed

theorem chunk_loop_termination_witness:
  "(\<exists>res. write_chunks example_options 5 [0, 0]
             \<lparr>target = ''/t/a'', pos = 0, failed = False\<rparr> example_world = Some res) \<and>
   (\<exists>remaining1 buf1 ofs1 w1.
      write_chunk example_options 5 [0, 0]
        \<lparr>target = ''/t/a'', pos = 0, failed = False\<rparr> example_world =
        Inr (remaining1, buf1, ofs1, w1) \<and> remaining1 = 3 \<and> remaining1 < 5) \<and>
   (\<exists>res. wipe_file ''/t/a'' example_options example_world = Some res) \<and>
   wipe_file ''/t/a'' (example_options\<lparr>block_size := 0\<rparr>) example_world = None"
proof -
  let ?ofs = "\<lparr>target = ''/t/a'', pos = 0, failed = False\<rparr>"
  note t = chunk_loop_termination
    [where buf = "[0, 0]" and opt = example_options and remaining = 5 and ofs = ?ofs
       and w = example_world and path = "''/t/a''"]
  have h1: "0 < length [0 :: byte, 0]"
    by simp
  have "case write_chunk example_options 5 [0, 0] ?ofs example_world of
          Inr (remaining1, buf1, ofs1, w1) \<Rightarrow> True | Inl r \<Rightarrow> False"
    by code_simp
  then obtain remaining1 buf1 ofs1 w1 where
    h2: "write_chunk example_options 5 [0, 0] ?ofs example_world =
           Inr (remaining1, buf1, ofs1, w1)"
    by (auto split: sum.splits)
  have h3: "0 < block_size example_options \<and> sint (passes example_options) < 2 ^ 31 - 1"
    by code_simp
  have h4: "block_size (example_options\<lparr>block_size := 0\<rparr>) = 0 \<and>
            checks_pass example_world ''/t/a'' (example_options\<lparr>block_size := 0\<rparr>) \<and>
            0 < fst (fs_file_size example_world ''/t/a'')"
    by code_simp
  have h5: "\<forall>n\<ge>io_count example_world. io_fault (env example_world) n = None"
    by (simp add: example_world_def example_env_def)
  have c1: "\<exists>res. write_chunks example_options 5 [0, 0] ?ofs example_world = Some res"
    using t h1 by blast
  have c2: "remaining1 = 3 \<and> remaining1 < 5"
    using t [where ?remaining1.0 = remaining1 and ?buf1.0 = buf1 and ?ofs1.0 = ofs1
               and ?w1.0 = w1] h1 h2
    by simp
  have c3: "\<exists>res. wipe_file ''/t/a'' example_options example_world = Some res"
    using t h3 by blast
  have c4: "wipe_file ''/t/a'' (example_options\<lparr>block_size := 0\<rparr>) example_world = None"
    using h4 h5 chunk_loop_termination
      [where opt = "example_options\<lparr>block_size := 0\<rparr>" and w = example_world
         and path = "''/t/a''" and buf = "[]"]
    by blast
  from c1 c2 c3 c4 h2 show ?thesis
    by blast
qed

subsection \<open>The dry run\<close>

lemma regular_entry_iff:
  "regular_entry w p \<longleftrightarrow>
     \<not> fst (fs_is_symlink w p) \<and> fst (fs_is_regular_file w p) \<and> snd (fs_is_regular_file w p) = None"
  by (auto simp: regular_entry_def fs_is_symlink_def fs_symlink_status_def fs_is_regular_file_def
        fs_status_def resolve_step split: option.splits node.splits prod.splits)

lemma regular_entry_cout [simp]: "regular_entry (w\<lparr>cout := c\<rparr>) = regular_entry w"
  by (rule ext) (simp add: regular_entry_def split: option.splits)

lemma enumerate_files_eq:
  "enumerate_files dry_run (map (Pair None) ps) total_files w =
     (total_files + of_nat (length (filter (regular_entry w) ps)),
      if dry_run then w\<lparr>cout := cout w @ map preview_notice (filter (regular_entry w) ps)\<rparr> else w)"
proof (induction ps arbitrary: total_files w)
  case Nil
  then show ?case by simp
next
  case (Cons p ps)
  show ?case
  proof (cases "regular_entry w p")
    case True
    then have q: "\<not> fst (fs_is_symlink w p)" "fs_is_regular_file w p = (True, None)"
      by (auto simp: regular_entry_iff prod_eq_iff)
    show ?thesis
      using True q Cons.IH
      by (cases "fs_is_symlink w p") (simp add: print_cout_def preview_notice_def)
  next
    case False
    then show ?thesis
      using Cons.IH
      by (cases "fs_is_symlink w p"; cases "fs_is_regular_file w p")
         (auto simp: regular_entry_iff)
  qed
qed

text \<open>
  C7. For every existing directory that is not dangerous, \<open>wipe_directory\<close> with
  \<open>dry_run = True\<close>, whatever \<open>yes\<close> is, returns \<open>ok = True\<close>; its message reports the
  number of regular files among the descendants of the directory (links, entries
  whose status cannot be read and everything below an unreadable directory left out;
  the counter has 64 bits) and tells to run again with \<^verbatim>\<open>--yes\<close>. The machine
  afterwards is the one before with one preview line printed per counted file: no
  file system object has changed.
\<close>
theorem dry_run_counts_regular_files:
  "existing_directory w dir \<and> \<not> is_dangerous_dir dir w \<longrightarrow>
   wipe_directory dir opt True yes w =
     Some (\<lparr>ok = True,
            message = ''Dry-run complete. Files to wipe: '' @
                      to_string (length (regular_files w dir) mod 2 ^ 64) @
                      ''. Re-run with --yes to execute.''\<rparr>,
           w\<lparr>cout := cout w @ map preview_notice (regular_files w dir)\<rparr>)"
proof
  assume a: "existing_directory w dir \<and> \<not> is_dangerous_dir dir w"
  have it: "recursive_directory_iterator w dir = map (Pair None) (descendants w dir)"
    by (simp add: descendants_def recursive_directory_iterator_def comp_def)
  show "wipe_directory dir opt True yes w =
     Some (\<lparr>ok = True,
            message = ''Dry-run complete. Files to wipe: '' @
                      to_string (length (regular_files w dir) mod 2 ^ 64) @
                      ''. Re-run with --yes to execute.''\<rparr>,
           w\<lparr>cout := cout w @ map preview_notice (regular_files w dir)\<rparr>)"
    using a
    by (simp add: wipe_directory_def existing_directory_def it enumerate_files_eq
          regular_files_def unat_of_nat)
qed

theorem dry_run_counts_regular_files_witness:
  "wipe_directory ''/t'' example_options True False example_world =
     Some (\<lparr>ok = True,
            message = ''Dry-run complete. Files to wipe: 3. Re-run with --yes to execute.''\<rparr>,
           example_world\<lparr>cout := cout example_world @
              map preview_notice [''/t/a'', ''/t/odd'', ''/t/sub/b'']\<rparr>)"
proof -
  have h: "existing_directory example_world ''/t'' \<and> \<not> is_dangerous_dir ''/t'' example_world"
    by code_simp
  have f: "regular_files example_world ''/t'' = [''/t/a'', ''/t/odd'', ''/t/sub/b'']"
    by code_simp
  have s: "to_string 3 = ''3''"
    by code_simp
  from h dry_run_counts_regular_files
    [where w = example_world and dir = "''/t''" and opt = example_options and yes = False]
  show ?thesis
    by (simp add: f s)
qed

subsection \<open>Links and the cleanup\<close>

text \<open>
  C9 does not hold in execute mode. The two loops over the files skip every link, but
  the cleanup loop asks \<^verbatim>\<open>is_directory\<close>, which follows links, without asking
  \<^verbatim>\<open>is_symlink\<close> first; a link to a directory is collected and \<^verbatim>\<open>remove\<close> then
  deletes the link. Here \<open>/d\<close> holds the file \<open>/d/f\<close> and the link \<open>/d/lnk\<close> to the directory
  \<open>/outside\<close>, and nothing fails: the sweep reports one file wiped and \<open>ok = True\<close>, the
  link was not counted, and after the sweep the link is gone while the directory it
  pointed to is still there.
\<close>
theorem cleanup_removes_link_to_directory:
  "existing_directory link_world ''/d'' \<and> \<not> is_dangerous_dir ''/d'' link_world \<and>
   nodes link_world ''/d/lnk'' = Some (Symlink ''/outside'') \<and>
   fst (fs_is_symlink link_world ''/d/lnk'') \<and>
   (case wipe_directory ''/d'' example_options False True link_world of
      None \<Rightarrow> False
    | Some (r, w') \<Rightarrow>
        ok r \<and> message r = ''wipe-dir complete. total=1, wiped=1, failed=0'' \<and>
        nodes w' ''/d/f'' = None \<and> nodes w' ''/d/lnk'' = None \<and>
        nodes w' ''/outside'' = Some Directory)"
  by code_simp

theorem cleanup_removes_link_to_directory_witness:
  "\<exists>r w'. wipe_directory ''/d'' example_options False True link_world = Some (r, w') \<and>
     nodes link_world ''/d/lnk'' = Some (Symlink ''/outside'') \<and> nodes w' ''/d/lnk'' = None"
  using cleanup_removes_link_to_directory
  by (auto split: option.splits)

subsection \<open>The execute pass\<close>

lemma regular_entry_resolve:
  assumes "regular_entry w p"
  shows "resolve w p = (None, Some p) \<and> wipe_target w p = p \<and>
         (\<exists>bs. nodes w p = Some (Regular bs)) \<and> stat_err (env w) p = None"
  using assms
  by (auto simp: regular_entry_def wipe_target_def resolve_step
           split: option.splits node.splits)

lemma regular_entry_same:
  "env w' = env w \<Longrightarrow> same_shape (nodes w p) (nodes w' p) \<Longrightarrow>
   regular_entry w' p = regular_entry w p"
  by (auto simp: regular_entry_def same_shape_def split: option.splits node.splits)

lemma regular_entry_cerr [simp]: "regular_entry (w\<lparr>cerr := c\<rparr>) = regular_entry w"
  by (rule ext) (simp add: regular_entry_def split: option.splits)

lemma wipe_file_frame:
  assumes run: "wipe_file p opt w = Some (r, w')" and reg: "regular_entry w p"
  shows "env w' = env w \<and> cout w' = cout w \<and> cerr w' = cerr w \<and>
         (\<forall>q. q \<noteq> p \<longrightarrow> nodes w' q = nodes w q) \<and>
         (if ok r then nodes w' p = None else regular_entry w' p)"
proof (cases "checks_pass w p opt")
  case False
  from wipe_file_rejects [OF this] run reg show ?thesis by auto
next
  case True
  note u = wipe_file_unfold [OF True]
  note rr = regular_entry_resolve [OF reg]
  from run u obtain res where o: "overwrite_passes p opt w = Some res"
    by (auto split: option.splits)
  from True have pos: "0 < sint (passes opt)"
    by (simp add: checks_pass_def)
  note pr = overwrite_passes_result [OF o pos]
  show ?thesis
  proof (cases res)
    case (Inl x)
    obtain r0 v where x: "x = (r0, v)" by (cases x) auto
    from run u o Inl x have e: "r = r0" "w' = v"
      by simp_all
    from pr Inl x e rr have f: "overwrite_frame p w w'" and nok: "\<not> ok r"
      by simp_all
    from f have "regular_entry w' p = regular_entry w p"
      by (intro regular_entry_same) (simp_all add: overwrite_frame_def)
    with f nok reg show ?thesis
      by (simp add: overwrite_frame_def)
  next
    case (Inr x)
    obtain b1 v1 where x: "x = (b1, v1)" by (cases x) auto
    from pr Inr x rr have f: "overwrite_frame p w v1"
      by simp
    then have reg1: "regular_entry v1 p"
      using reg regular_entry_same [of v1 w p] by (simp add: overwrite_frame_def)
    obtain removed ec w2 where rm: "fs_remove p v1 = (removed, ec, w2)"
      by (cases "fs_remove p v1") auto
    note re = fs_remove_effect [OF rm]
    from run u o Inr x rm have w2: "w' = w2" and okr: "ok r = (removed \<and> ec = None)"
      by (auto split: if_splits)
    show ?thesis
    proof (cases "removed \<and> ec = None")
      case True
      with re f w2 okr show ?thesis
        by (simp add: overwrite_frame_def)
    next
      case False
      with re have n: "nodes w2 = nodes v1" "env w2 = env v1"
        by simp_all
      then have "regular_entry w2 p"
        using reg1 regular_entry_same [of w2 v1 p] by simp
      with False re f w2 okr n show ?thesis
        by (simp add: overwrite_frame_def)
    qed
  qed
qed

lemma execute_wipe_counts:
  assumes "execute_wipe opt (map (Pair None) ps) wiped_files failed_files w = Some (wiped_files', failed_files', w')"
    and "distinct ps"
  shows "env w' = env w \<and> cout w' = cout w \<and>
         (\<forall>q. \<not> (q \<in> set ps \<and> regular_entry w q) \<longrightarrow> nodes w' q = nodes w q) \<and>
         (\<forall>q\<in>set ps. regular_entry w q \<longrightarrow> nodes w' q = None \<or> regular_entry w' q) \<and>
         wiped_files' = wiped_files + of_nat (length [p \<leftarrow> ps. regular_entry w p \<and> nodes w' p = None]) \<and>
         failed_files' = failed_files + of_nat (length [p \<leftarrow> ps. regular_entry w p \<and> nodes w' p \<noteq> None]) \<and>
         length (cerr w') =
           length (cerr w) + length [p \<leftarrow> ps. regular_entry w p \<and> nodes w' p \<noteq> None]"
  using assms
proof (induction ps arbitrary: wiped_files failed_files w)
  case Nil
  then show ?case by simp
next
  case (Cons p ps)
  from Cons.prems have d: "distinct ps" and np: "p \<notin> set ps"
    by simp_all
  show ?case
  proof (cases "regular_entry w p")
    case False
    then have "execute_wipe opt (map (Pair None) (p # ps)) wiped_files failed_files w =
        execute_wipe opt (map (Pair None) ps) wiped_files failed_files w"
      by (cases "fs_is_symlink w p"; cases "fs_is_regular_file w p")
         (auto simp: regular_entry_iff)
    with Cons.prems have "execute_wipe opt (map (Pair None) ps) wiped_files failed_files w =
        Some (wiped_files', failed_files', w')"
      by simp
    from Cons.IH [OF this d] False np show ?thesis
      by auto
  next
    case True
    then have q: "\<not> fst (fs_is_symlink w p)" "fs_is_regular_file w p = (True, None)"
      by (auto simp: regular_entry_iff prod_eq_iff)
    from Cons.prems q obtain res w1 where wf: "wipe_file p opt w = Some (res, w1)"
      by (cases "fs_is_symlink w p"; cases "wipe_file p opt w") auto
    note fr = wipe_file_frame [OF wf True]
    let ?w1 = "if ok res then w1
               else print_cerr (''[FAIL] '' @ p @ '' : '' @ message res @ [CHR 0x0A]) w1"
    let ?wd = "if ok res then wiped_files + 1 else wiped_files"
    let ?fl = "if ok res then failed_files else failed_files + 1"
    from Cons.prems q wf
    have rest: "execute_wipe opt (map (Pair None) ps) ?wd ?fl ?w1 = Some (wiped_files', failed_files', w')"
      by (cases "fs_is_symlink w p") (auto split: if_splits)
    note ih = Cons.IH [OF rest d]
    have env1: "env ?w1 = env w" and cout1: "cout ?w1 = cout w"
      and nodes1: "nodes ?w1 = nodes w1"
      using fr by (simp_all add: print_cerr_def)
    have same: "regular_entry ?w1 q = regular_entry w q" if "q \<noteq> p" for q
      using that fr env1 nodes1 by (intro regular_entry_same) (simp_all add: print_cerr_def)
    have same_ps: "regular_entry ?w1 q = regular_entry w q" if "q \<in> set ps" for q
      using that np by (intro same) auto
    have pw': "nodes w' p = nodes w1 p"
      using ih np nodes1 by simp
    have f1: "[q \<leftarrow> ps. regular_entry ?w1 q \<and> nodes w' q = None] =
        [q \<leftarrow> ps. regular_entry w q \<and> nodes w' q = None]"
      by (rule filter_cong) (simp_all add: same_ps)
    have f2: "[q \<leftarrow> ps. regular_entry ?w1 q \<and> nodes w' q \<noteq> None] =
        [q \<leftarrow> ps. regular_entry w q \<and> nodes w' q \<noteq> None]"
      by (rule filter_cong) (simp_all add: same_ps)
    have frame: "\<forall>q. \<not> (q \<in> set (p # ps) \<and> regular_entry w q) \<longrightarrow> nodes w' q = nodes w q"
    proof (intro allI impI)
      fix q assume a: "\<not> (q \<in> set (p # ps) \<and> regular_entry w q)"
      with True have qp: "q \<noteq> p" by auto
      with a same [OF qp] have "\<not> (q \<in> set ps \<and> regular_entry ?w1 q)" by auto
      with ih have "nodes w' q = nodes ?w1 q" by blast
      with qp fr nodes1 show "nodes w' q = nodes w q" by simp
    qed
    have still: "\<forall>q\<in>set (p # ps). regular_entry w q \<longrightarrow> nodes w' q = None \<or> regular_entry w' q"
    proof (intro ballI impI)
      fix q assume a: "q \<in> set (p # ps)" "regular_entry w q"
      show "nodes w' q = None \<or> regular_entry w' q"
      proof (cases "q = p")
        case False
        with a ih same_ps show ?thesis by auto
      next
        case qp: True
        show ?thesis
        proof (cases "ok res")
          case True
          with fr pw' qp show ?thesis by simp
        next
          case False
          with fr have "regular_entry w1 p" by simp
          moreover have "env w' = env w1"
            using ih env1 fr by simp
          ultimately have "regular_entry w' p"
            using pw' regular_entry_same [of w' w1 p] by simp
          with qp show ?thesis by simp
        qed
      qed
    qed
    from ih have cnt:
      "wiped_files' = ?wd + of_nat (length [q \<leftarrow> ps. regular_entry w q \<and> nodes w' q = None])"
      "failed_files' = ?fl + of_nat (length [q \<leftarrow> ps. regular_entry w q \<and> nodes w' q \<noteq> None])"
      "length (cerr w') = length (cerr ?w1) +
         length [q \<leftarrow> ps. regular_entry w q \<and> nodes w' q \<noteq> None]"
      unfolding f1 f2 by blast+
    have envs: "env w' = env w" "cout w' = cout w"
      using ih env1 cout1 by simp_all
    show ?thesis
    proof (cases "ok res")
      case ok: True
      with fr pw' have gone: "nodes w' p = None" by simp
      from ok fr have "cerr ?w1 = cerr w" by simp
      with cnt ok gone True envs frame still show ?thesis
        by simp
    next
      case nok: False
      with fr have "regular_entry w1 p" by simp
      then have "nodes w1 p \<noteq> None"
        by (auto simp: regular_entry_def split: option.splits)
      with pw' have there: "nodes w' p \<noteq> None" by simp
      have "length (cerr ?w1) = Suc (length (cerr w))"
        using nok fr by (simp add: print_cerr_def)
      with cnt nok there True envs frame still show ?thesis
        by simp
    qed
  qed
qed

lemma is_directory_node:
  assumes "fst (fs_is_directory w p)"
  shows "nodes w p \<noteq> None \<and> \<not> regular_entry w p"
  using assms
  by (auto simp: fs_is_directory_def fs_status_def resolve_step regular_entry_def
           split: prod.splits option.splits node.splits)

lemma collect_dirs_subset:
  "set (collect_dirs es dirs w) \<subseteq> set dirs \<union> {p. fst (fs_is_directory w p)}"
proof (induction es arbitrary: dirs)
  case Nil
  then show ?case by simp
next
  case (Cons e es)
  obtain ec p where e: "e = (ec, p)" by (cases e) auto
  show ?case
    using Cons.IH [of dirs] Cons.IH [of "dirs @ [p]"]
    by (cases "fs_is_directory w p") (auto simp: e)
qed

lemma remove_dirs_frame:
  "env (remove_dirs ds w) = env w \<and> cout (remove_dirs ds w) = cout w \<and>
   cerr (remove_dirs ds w) = cerr w \<and>
   (\<forall>q. q \<notin> set ds \<longrightarrow> nodes (remove_dirs ds w) q = nodes w q)"
proof (induction ds arbitrary: w)
  case Nil
  then show ?case by simp
next
  case (Cons d ds)
  obtain removed ec w1 where rm: "fs_remove d w = (removed, ec, w1)"
    by (cases "fs_remove d w") auto
  from fs_remove_effect [OF rm] Cons.IH [of w1] rm show ?case
    by auto
qed

lemma execute_wipe_terminates:
  assumes "0 < block_size opt" "sint (passes opt) < 2 ^ 31 - 1"
  shows "\<exists>res. execute_wipe opt es wiped_files failed_files w = Some res"
proof (induction es arbitrary: wiped_files failed_files w)
  case Nil
  then show ?case by simp
next
  case (Cons e es)
  obtain ec p where e: "e = (ec, p)" by (cases e) auto
  from wipe_file_terminates [OF assms] obtain res w1
    where "wipe_file p opt w = Some (res, w1)"
    by fastforce
  with Cons.IH show ?case
    by (auto simp: e split: prod.splits)
qed

lemma wipe_directory_terminates:
  assumes "0 < block_size opt" "sint (passes opt) < 2 ^ 31 - 1"
  shows "\<exists>res. wipe_directory dir opt dry_run yes w = Some res"
proof -
  obtain total_files w1
    where en: "enumerate_files dry_run (recursive_directory_iterator w dir) 0 w = (total_files, w1)"
    by fastforce
  from execute_wipe_terminates [OF assms] obtain res
    where "execute_wipe opt (recursive_directory_iterator w1 dir) 0 0 w1 = Some res"
    by blast
  with en show ?thesis
    by (auto simp: wipe_directory_def Let_def split: prod.splits)
qed

lemma wipe_each_names: "wipe_each opt ps w = Some (rs, w') \<Longrightarrow> map fst rs = ps"
proof (induction ps arbitrary: w rs)
  case Nil
  then show ?case by simp
next
  case (Cons p ps)
  then show ?case
    by (auto split: option.splits prod.splits)
qed

lemma execute_wipe_calls:
  assumes "distinct ps"
  shows "execute_wipe opt (map (Pair None) ps) wiped_files failed_files w =
     (case wipe_each opt (filter (regular_entry w) ps) w of
        None \<Rightarrow> None
      | Some (rs, w') \<Rightarrow>
          Some (wiped_files + of_nat (length (successes rs)),
                failed_files + of_nat (length (failures rs)), w'))"
  using assms
proof (induction ps arbitrary: wiped_files failed_files w)
  case Nil
  then show ?case by (simp add: successes_def failures_def)
next
  case (Cons p ps)
  from Cons.prems have d: "distinct ps" and np: "p \<notin> set ps"
    by simp_all
  show ?case
  proof (cases "regular_entry w p")
    case False
    then have "execute_wipe opt (map (Pair None) (p # ps)) wiped_files failed_files w =
        execute_wipe opt (map (Pair None) ps) wiped_files failed_files w"
      by (cases "fs_is_symlink w p"; cases "fs_is_regular_file w p")
         (auto simp: regular_entry_iff)
    with Cons.IH [OF d] False show ?thesis
      by simp
  next
    case True
    then have q: "\<not> fst (fs_is_symlink w p)" "fs_is_regular_file w p = (True, None)"
      by (auto simp: regular_entry_iff prod_eq_iff)
    show ?thesis
    proof (cases "wipe_file p opt w")
      case None
      with True q show ?thesis
        by (cases "fs_is_symlink w p") auto
    next
      case (Some y)
      obtain res w1 where y: "y = (res, w1)" by (cases y) auto
      from Some y have wf: "wipe_file p opt w = Some (res, w1)" by simp
      note fr = wipe_file_frame [OF wf True]
      let ?w1 = "if ok res then w1 else print_cerr (fail_notice p res) w1"
      let ?wd = "if ok res then wiped_files + 1 else wiped_files"
      let ?fl = "if ok res then failed_files else failed_files + 1"
      have step: "execute_wipe opt (map (Pair None) (p # ps)) wiped_files failed_files w =
          execute_wipe opt (map (Pair None) ps) ?wd ?fl ?w1"
        using q wf by (cases "fs_is_symlink w p") (auto simp: fail_notice_def)
      have "regular_entry ?w1 x = regular_entry w x" if "x \<in> set ps" for x
      proof -
        from that np have "x \<noteq> p" by auto
        with fr show ?thesis
          by (intro regular_entry_same) (simp_all add: print_cerr_def)
      qed
      then have f: "filter (regular_entry ?w1) ps = filter (regular_entry w) ps"
        by (intro filter_cong) simp_all
      show ?thesis
      proof (cases "wipe_each opt (filter (regular_entry w) ps) ?w1")
        case None
        with step Cons.IH [OF d, of ?wd ?fl ?w1] f True wf show ?thesis
          by simp
      next
        case (Some z)
        obtain rs w' where z: "z = (rs, w')" by (cases z) auto
        from step Cons.IH [OF d, of ?wd ?fl ?w1] f Some z
        have "execute_wipe opt (map (Pair None) (p # ps)) wiped_files failed_files w =
            Some (?wd + of_nat (length (successes rs)), ?fl + of_nat (length (failures rs)), w')"
          by simp
        moreover have "wipe_each opt (filter (regular_entry w) (p # ps)) w =
            Some ((p, res) # rs, w')"
          using True wf Some z by simp
        ultimately show ?thesis
          by (simp add: successes_def failures_def)
      qed
    qed
  qed
qed

lemma wipe_each_result:
  assumes "wipe_each opt ps w = Some (rs, w')" "distinct ps" "\<forall>p\<in>set ps. regular_entry w p"
  shows "env w' = env w \<and> cout w' = cout w \<and>
         (\<forall>q. q \<notin> set ps \<longrightarrow> nodes w' q = nodes w q) \<and>
         (\<forall>x\<in>set rs. if ok (snd x) then nodes w' (fst x) = None
                       else regular_entry w' (fst x)) \<and>
         cerr w' = cerr w @ map (\<lambda>x. fail_notice (fst x) (snd x)) (failures rs)"
  using assms
proof (induction ps arbitrary: w rs)
  case Nil
  then show ?case by (simp add: failures_def)
next
  case (Cons p ps)
  from Cons.prems have d: "distinct ps" and np: "p \<notin> set ps" and reg: "regular_entry w p"
    by simp_all
  from Cons.prems(1) obtain res w1 where wf: "wipe_file p opt w = Some (res, w1)"
    by (auto split: option.splits)
  note fr = wipe_file_frame [OF wf reg]
  let ?w1 = "if ok res then w1 else print_cerr (fail_notice p res) w1"
  from Cons.prems(1) wf obtain rs' where rest: "wipe_each opt ps ?w1 = Some (rs', w')"
    and rs: "rs = (p, res) # rs'"
    by (auto split: option.splits)
  have env1: "env ?w1 = env w" and cout1: "cout ?w1 = cout w" and nodes1: "nodes ?w1 = nodes w1"
    using fr by (simp_all add: print_cerr_def)
  have regs: "\<forall>x\<in>set ps. regular_entry ?w1 x"
  proof
    fix x assume x: "x \<in> set ps"
    with np have "x \<noteq> p" by auto
    with fr have "regular_entry ?w1 x = regular_entry w x"
      by (intro regular_entry_same) (simp_all add: print_cerr_def)
    with x Cons.prems(3) show "regular_entry ?w1 x" by simp
  qed
  note ih = Cons.IH [OF rest d regs]
  have pw': "nodes w' p = nodes w1 p"
    using ih np nodes1 by simp
  have head: "if ok res then nodes w' p = None else regular_entry w' p"
  proof (cases "ok res")
    case True
    with fr pw' show ?thesis by simp
  next
    case False
    with fr have "regular_entry w1 p" by simp
    moreover have "env w' = env w1"
      using ih env1 fr by simp
    ultimately have "regular_entry w' p"
      using pw' regular_entry_same [of w' w1 p] by simp
    with False show ?thesis by simp
  qed
  have frame: "\<forall>q. q \<notin> set (p # ps) \<longrightarrow> nodes w' q = nodes w q"
    using ih fr nodes1 by auto
  have "cerr ?w1 = cerr w @ (if ok res then [] else [fail_notice p res])"
    using fr by (simp add: print_cerr_def)
  with ih have ce: "cerr w' = cerr w @ map (\<lambda>x. fail_notice (fst x) (snd x)) (failures rs)"
    by (simp add: rs failures_def)
  from ih env1 cout1 head frame ce rs show ?case
    by simp
qed

lemma map_fst_filter:
  assumes "\<forall>x\<in>set rs. Q x = P (fst x)"
  shows "map fst (filter Q rs) = filter P (map fst rs)"
  using assms by (induction rs) auto

lemma iterator_descendants:
  "recursive_directory_iterator w dir = map (Pair None) (descendants w dir)"
  by (simp add: descendants_def recursive_directory_iterator_def comp_def)

lemma execute_sweep_result:
  assumes ex: "existing_directory w dir" and nd: "\<not> is_dangerous_dir dir w"
    and di: "distinct (descendants w dir)"
    and run: "wipe_directory dir opt False True w = Some (r, w')"
  shows "ok r = (of_nat (length (files_left w w' dir)) = (0 :: 64 word)) \<and>
         message r =
           ''wipe-dir complete. total='' @ to_string (length (regular_files w dir) mod 2 ^ 64) @
           '', wiped='' @ to_string (length (files_wiped w w' dir) mod 2 ^ 64) @
           '', failed='' @ to_string (length (files_left w w' dir) mod 2 ^ 64) \<and>
         length (files_wiped w w' dir) + length (files_left w w' dir) =
           length (regular_files w dir) \<and>
         length (cerr w') = length (cerr w) + length (files_left w w' dir) \<and>
         (\<forall>p\<in>set (files_left w w' dir). regular_entry w' p)"
proof -
  let ?ps = "descendants w dir"
  have en: "enumerate_files False (recursive_directory_iterator w dir) 0 w =
      (of_nat (length (regular_files w dir)), w)"
    by (simp add: iterator_descendants enumerate_files_eq regular_files_def)
  from run ex nd en obtain wd fl w2
    where xw: "execute_wipe opt (map (Pair None) ?ps) 0 0 w = Some (wd, fl, w2)"
    by (auto simp: wipe_directory_def existing_directory_def iterator_descendants
             split: option.splits)
  let ?dirs = "collect_dirs (recursive_directory_iterator w2 dir) [] w2"
  from run ex nd en xw
  have r: "r = \<lparr>ok = (fl = 0),
                message = ''wipe-dir complete. total='' @
                  to_string (unat (of_nat (length (regular_files w dir)) :: 64 word)) @
                  '', wiped='' @ to_string (unat wd) @
                  '', failed='' @ to_string (unat fl)\<rparr>"
    and w': "w' = remove_dirs (rev ?dirs) w2"
    by (simp_all add: wipe_directory_def existing_directory_def iterator_descendants Let_def)
  note c = execute_wipe_counts [OF xw di]
  note rf = remove_dirs_frame [of "rev ?dirs" w2]
  have keep: "nodes w' p = nodes w2 p \<and> regular_entry w' p = regular_entry w2 p"
    if p: "p \<in> set ?ps" "regular_entry w p" for p
  proof -
    from c p have "nodes w2 p = None \<or> regular_entry w2 p"
      by blast
    then have "\<not> fst (fs_is_directory w2 p)"
      using is_directory_node [of w2 p] by auto
    then have "p \<notin> set (rev ?dirs)"
      using collect_dirs_subset [of "recursive_directory_iterator w2 dir" "[]" w2] by auto
    with rf w' have n: "nodes w' p = nodes w2 p"
      by simp
    moreover from rf w' have "env w' = env w2"
      by simp
    ultimately have "regular_entry w' p = regular_entry w2 p"
      using regular_entry_same [of w' w2 p] by simp
    with n show ?thesis by simp
  qed
  have fw: "files_wiped w w' dir = [p \<leftarrow> ?ps. regular_entry w p \<and> nodes w2 p = None]"
    unfolding files_wiped_def regular_files_def filter_filter
    by (rule filter_cong) (auto simp: keep)
  have fl': "files_left w w' dir = [p \<leftarrow> ?ps. regular_entry w p \<and> nodes w2 p \<noteq> None]"
    unfolding files_left_def regular_files_def filter_filter
    by (rule filter_cong) (auto simp: keep)
  from c have wd: "wd = of_nat (length (files_wiped w w' dir))"
    and fl: "fl = of_nat (length (files_left w w' dir))"
    and ce: "length (cerr w2) = length (cerr w) + length (files_left w w' dir)"
    by (simp_all add: fw fl')
  have sum: "length (files_wiped w w' dir) + length (files_left w w' dir) =
      length (regular_files w dir)"
    unfolding files_wiped_def files_left_def
    using sum_length_filter_compl [of "\<lambda>p. nodes w' p = None" "regular_files w dir"]
    by simp
  have left: "\<forall>p\<in>set (files_left w w' dir). regular_entry w' p"
  proof
    fix p assume "p \<in> set (files_left w w' dir)"
    then have p: "p \<in> set ?ps" "regular_entry w p" "nodes w' p \<noteq> None"
      by (auto simp: files_left_def regular_files_def)
    with keep [OF p(1,2)] c show "regular_entry w' p"
      by auto
  qed
  from rf w' ce have "length (cerr w') = length (cerr w) + length (files_left w w' dir)"
    by simp
  with r wd fl sum left show ?thesis
    by (simp add: unat_of_nat)
qed

lemma execute_sweep_calls:
  assumes ex: "existing_directory w dir" and nd: "\<not> is_dangerous_dir dir w"
    and di: "distinct (descendants w dir)"
    and run: "wipe_directory dir opt False True w = Some (r, w')"
  shows "\<exists>rs w2. wipe_each opt (regular_files w dir) w = Some (rs, w2) \<and>
           map fst rs = regular_files w dir \<and>
           w' = cleanup dir w2 \<and>
           map fst (successes rs) = files_wiped w w' dir \<and>
           map fst (failures rs) = files_left w w' dir \<and>
           cerr w' = cerr w @ map (\<lambda>x. fail_notice (fst x) (snd x)) (failures rs)"
proof -
  let ?ps = "descendants w dir"
  have en: "enumerate_files False (recursive_directory_iterator w dir) 0 w =
      (of_nat (length (regular_files w dir)), w)"
    by (simp add: iterator_descendants enumerate_files_eq regular_files_def)
  from run ex nd en obtain wd fl w2
    where xw: "execute_wipe opt (map (Pair None) ?ps) 0 0 w = Some (wd, fl, w2)"
    by (auto simp: wipe_directory_def existing_directory_def iterator_descendants
             split: option.splits)
  let ?dirs = "collect_dirs (recursive_directory_iterator w2 dir) [] w2"
  from run ex nd en xw have w': "w' = cleanup dir w2"
    by (simp add: wipe_directory_def existing_directory_def iterator_descendants Let_def
          cleanup_def)
  from execute_wipe_calls [OF di, of opt 0 0 w] xw
  obtain rs where we: "wipe_each opt (regular_files w dir) w = Some (rs, w2)"
    by (auto simp: regular_files_def split: option.splits)
  have nm: "map fst rs = regular_files w dir"
    using we by (rule wipe_each_names)
  have dist: "distinct (regular_files w dir)"
    using di by (simp add: regular_files_def)
  have regs: "\<forall>p\<in>set (regular_files w dir). regular_entry w p"
    by (simp add: regular_files_def)
  note res = wipe_each_result [OF we dist regs]
  note rf = remove_dirs_frame [of "rev ?dirs" w2]
  have each: "(ok (snd x) \<longrightarrow> nodes w2 (fst x) = None) \<and>
              (\<not> ok (snd x) \<longrightarrow> regular_entry w2 (fst x))" if "x \<in> set rs" for x
    using res that by (cases "ok (snd x)") auto
  have keep: "nodes w' (fst x) = nodes w2 (fst x)" if x: "x \<in> set rs" for x
  proof -
    from each [OF x] have "nodes w2 (fst x) = None \<or> regular_entry w2 (fst x)"
      by blast
    then have "\<not> fst (fs_is_directory w2 (fst x))"
      using is_directory_node [of w2 "fst x"] by auto
    then have "fst x \<notin> set (rev ?dirs)"
      using collect_dirs_subset [of "recursive_directory_iterator w2 dir" "[]" w2] by auto
    with rf w' show ?thesis
      by (simp add: cleanup_def)
  qed
  have gone: "ok (snd x) = (nodes w' (fst x) = None)" if x: "x \<in> set rs" for x
  proof (cases "ok (snd x)")
    case True
    with each [OF x] keep [OF x] show ?thesis by simp
  next
    case False
    with each [OF x] have "regular_entry w2 (fst x)" by simp
    then have "nodes w2 (fst x) \<noteq> None"
      using regular_entry_resolve [of w2 "fst x"] by auto
    with False keep [OF x] show ?thesis by simp
  qed
  have s: "map fst (successes rs) = files_wiped w w' dir"
    unfolding successes_def files_wiped_def nm [symmetric]
    by (rule map_fst_filter) (simp add: gone)
  have f: "map fst (failures rs) = files_left w w' dir"
    unfolding failures_def files_left_def nm [symmetric]
    by (rule map_fst_filter) (simp add: gone)
  from rf w' res
  have ce: "cerr w' = cerr w @ map (\<lambda>x. fail_notice (fst x) (snd x)) (failures rs)"
    by (simp add: cleanup_def)
  from we nm w' s f ce show ?thesis
    by blast
qed

text \<open>
  C8. In execute mode (\<open>dry_run = False\<close>, \<open>yes = True\<close>) on an existing directory that
  is not dangerous, the sweep returns whenever every call of \<open>wipe_file\<close> does (as
  with \<open>block_size \<ge> 1\<close> and \<open>passes\<close> below the largest \<^verbatim>\<open>int\<close>), whether the calls
  succeed or fail. When the walk reports each entry once, \<open>wipe_file\<close> is called on
  every regular file below the directory, in the order of the walk, each call starting
  from the machine the previous one left (with one line on the error stream after a
  failed call): the run of these calls, \<open>wipe_each\<close>, returns the results \<open>rs\<close>, one
  for each file, and the machine \<open>w2\<close>, and the sweep ends in \<open>w2\<close> after the cleanup
  of the directories. The calls that succeeded are those on the files that are gone
  afterwards, counted in \<open>wiped_files\<close>; the calls that failed are those on the files
  still there, counted in \<open>failed_files\<close>, and the error stream has received the line
  \<open>[FAIL] path : message\<close> of each failed call, with the message of that call, in
  order, and nothing else. The result has \<open>ok = (failed_files = 0)\<close> and its message
  gives the total, wiped and failed counts (the counters have 64 bits).
\<close>
theorem execute_sweep_continues:
  "existing_directory w dir \<and> \<not> is_dangerous_dir dir w \<longrightarrow>
     (0 < block_size opt \<and> sint (passes opt) < 2 ^ 31 - 1 \<longrightarrow>
        (\<exists>res. wipe_directory dir opt False True w = Some res)) \<and>
     (distinct (descendants w dir) \<and> wipe_directory dir opt False True w = Some (r, w') \<longrightarrow>
        (\<exists>rs w2. wipe_each opt (regular_files w dir) w = Some (rs, w2) \<and>
           map fst rs = regular_files w dir \<and>
           w' = cleanup dir w2 \<and>
           map fst (successes rs) = files_wiped w w' dir \<and>
           map fst (failures rs) = files_left w w' dir \<and>
           cerr w' = cerr w @ map (\<lambda>x. fail_notice (fst x) (snd x)) (failures rs)) \<and>
        ok r = (of_nat (length (files_left w w' dir)) = (0 :: 64 word)) \<and>
        message r =
          ''wipe-dir complete. total='' @ to_string (length (regular_files w dir) mod 2 ^ 64) @
          '', wiped='' @ to_string (length (files_wiped w w' dir) mod 2 ^ 64) @
          '', failed='' @ to_string (length (files_left w w' dir) mod 2 ^ 64) \<and>
        length (files_wiped w w' dir) + length (files_left w w' dir) =
          length (regular_files w dir) \<and>
        length (cerr w') = length (cerr w) + length (files_left w w' dir) \<and>
        (\<forall>p\<in>set (files_left w w' dir). regular_entry w' p))"
proof (intro impI conjI)
  assume "0 < block_size opt \<and> sint (passes opt) < 2 ^ 31 - 1"
  then have "0 < block_size opt" and "sint (passes opt) < 2 ^ 31 - 1"
    by simp_all
  then show "\<exists>res. wipe_directory dir opt False True w = Some res"
    by (rule wipe_directory_terminates)
next
  assume a: "existing_directory w dir \<and> \<not> is_dangerous_dir dir w"
    and b: "distinct (descendants w dir) \<and> wipe_directory dir opt False True w = Some (r, w')"
  from a b have s: "existing_directory w dir" "\<not> is_dangerous_dir dir w"
    "distinct (descendants w dir)" "wipe_directory dir opt False True w = Some (r, w')"
    by simp_all
  note e = execute_sweep_result [OF s]
  show "\<exists>rs w2. wipe_each opt (regular_files w dir) w = Some (rs, w2) \<and>
           map fst rs = regular_files w dir \<and>
           w' = cleanup dir w2 \<and>
           map fst (successes rs) = files_wiped w w' dir \<and>
           map fst (failures rs) = files_left w w' dir \<and>
           cerr w' = cerr w @ map (\<lambda>x. fail_notice (fst x) (snd x)) (failures rs)"
    using s by (rule execute_sweep_calls)
  from e show "ok r = (of_nat (length (files_left w w' dir)) = (0 :: 64 word))"
    by blast
  from e show "message r =
          ''wipe-dir complete. total='' @ to_string (length (regular_files w dir) mod 2 ^ 64) @
          '', wiped='' @ to_string (length (files_wiped w w' dir) mod 2 ^ 64) @
          '', failed='' @ to_string (length (files_left w w' dir) mod 2 ^ 64)"
    by blast
  from e show "length (files_wiped w w' dir) + length (files_left w w' dir) =
          length (regular_files w dir)"
    by blast
  from e show "length (cerr w') = length (cerr w) + length (files_left w w' dir)"
    by blast
  from e show "\<forall>p\<in>set (files_left w w' dir). regular_entry w' p"
    by blast
qed

theorem execute_sweep_continues_witness:
  "\<exists>r w' rs w2. wipe_directory ''/t'' example_options False True example_world = Some (r, w') \<and>
     wipe_each example_options [''/t/a'', ''/t/odd'', ''/t/sub/b''] example_world = Some (rs, w2) \<and>
     map (\<lambda>x. (fst x, ok (snd x))) rs =
       [(''/t/a'', True), (''/t/odd'', False), (''/t/sub/b'', True)] \<and>
     w' = cleanup ''/t'' w2 \<and>
     \<not> ok r \<and> message r = ''wipe-dir complete. total=3, wiped=2, failed=1'' \<and>
     files_wiped example_world w' ''/t'' = [''/t/a'', ''/t/sub/b''] \<and>
     files_left example_world w' ''/t'' = [''/t/odd''] \<and>
     cerr w' = [''[FAIL] /t/odd : Failed to get file size: Input/output error'' @ [CHR 0x0A]] \<and>
     regular_entry w' ''/t/odd''"
proof -
  note t = execute_sweep_continues
    [where w = example_world and dir = "''/t''" and opt = example_options]
  have h: "existing_directory example_world ''/t'' \<and> \<not> is_dangerous_dir ''/t'' example_world"
    by code_simp
  have h2: "0 < block_size example_options \<and> sint (passes example_options) < 2 ^ 31 - 1"
    by code_simp
  from t h h2 obtain r w'
    where run: "wipe_directory ''/t'' example_options False True example_world = Some (r, w')"
    by fastforce
  have d: "distinct (descendants example_world ''/t'')"
    by code_simp
  have rf: "regular_files example_world ''/t'' = [''/t/a'', ''/t/odd'', ''/t/sub/b'']"
    by code_simp
  from t [where r = r and w' = w'] h d run
  have "\<exists>rs w2. wipe_each example_options (regular_files example_world ''/t'') example_world =
            Some (rs, w2) \<and>
          w' = cleanup ''/t'' w2 \<and>
          map fst (successes rs) = files_wiped example_world w' ''/t'' \<and>
          map fst (failures rs) = files_left example_world w' ''/t'' \<and>
          cerr w' = cerr example_world @ map (\<lambda>x. fail_notice (fst x) (snd x)) (failures rs)"
    by blast
  then obtain rs w2
    where we: "wipe_each example_options [''/t/a'', ''/t/odd'', ''/t/sub/b''] example_world =
        Some (rs, w2)"
      and w': "w' = cleanup ''/t'' w2"
      and su: "map fst (successes rs) = files_wiped example_world w' ''/t''"
      and fa: "map fst (failures rs) = files_left example_world w' ''/t''"
      and ce: "cerr w' = cerr example_world @ map (\<lambda>x. fail_notice (fst x) (snd x)) (failures rs)"
    unfolding rf by blast
  have "case wipe_each example_options [''/t/a'', ''/t/odd'', ''/t/sub/b''] example_world of
          Some (rs, w2) \<Rightarrow>
            map (\<lambda>x. (fst x, ok (snd x))) rs =
              [(''/t/a'', True), (''/t/odd'', False), (''/t/sub/b'', True)] \<and>
            map fst (successes rs) = [''/t/a'', ''/t/sub/b''] \<and>
            map fst (failures rs) = [''/t/odd''] \<and>
            map (\<lambda>x. fail_notice (fst x) (snd x)) (failures rs) =
              [''[FAIL] /t/odd : Failed to get file size: Input/output error'' @ [CHR 0x0A]]
        | None \<Rightarrow> False"
    by code_simp
  with we have calls: "map (\<lambda>x. (fst x, ok (snd x))) rs =
        [(''/t/a'', True), (''/t/odd'', False), (''/t/sub/b'', True)]"
    and su': "map fst (successes rs) = [''/t/a'', ''/t/sub/b'']"
    and fa': "map fst (failures rs) = [''/t/odd'']"
    and no: "map (\<lambda>x. fail_notice (fst x) (snd x)) (failures rs) =
        [''[FAIL] /t/odd : Failed to get file size: Input/output error'' @ [CHR 0x0A]]"
    by simp_all
  from su su' have fw: "files_wiped example_world w' ''/t'' = [''/t/a'', ''/t/sub/b'']"
    by simp
  from fa fa' have fl: "files_left example_world w' ''/t'' = [''/t/odd'']"
    by simp
  have s: "to_string 3 = ''3''" "to_string (Suc (Suc 0)) = ''2''" "to_string (Suc 0) = ''1''"
    by code_simp+
  have ce0: "cerr example_world = []"
    by (simp add: example_world_def)
  from ce no ce0
  have cerr': "cerr w' =
      [''[FAIL] /t/odd : Failed to get file size: Input/output error'' @ [CHR 0x0A]]"
    by simp
  from t [where r = r and w' = w'] h d run
  have "ok r = (of_nat (length (files_left example_world w' ''/t'')) = (0 :: 64 word)) \<and>
        message r =
          ''wipe-dir complete. total='' @
            to_string (length (regular_files example_world ''/t'') mod 2 ^ 64) @
          '', wiped='' @ to_string (length (files_wiped example_world w' ''/t'') mod 2 ^ 64) @
          '', failed='' @ to_string (length (files_left example_world w' ''/t'') mod 2 ^ 64) \<and>
        (\<forall>p\<in>set (files_left example_world w' ''/t''). regular_entry w' p)"
    by blast
  then have a: "\<not> ok r"
    and b: "message r = ''wipe-dir complete. total=3, wiped=2, failed=1''"
    and c: "regular_entry w' ''/t/odd''"
    by (simp_all add: rf fw fl s)
  show ?thesis
    by (rule exI [where x = r], rule exI [where x = w'], rule exI [where x = rs],
        rule exI [where x = w2])
       (intro conjI run we calls w' fw fl cerr' a b c)
qed

end
